theory Spec2Isabelle
  imports Complex_Main
begin

section \<open>The scene graph the module is written against\<close>

text \<open>
  \<^verbatim>\<open>candleLoader.js\<close> is glue code over the THREE.js scene graph. The objects it
  touches are modelled as cells of an explicit store, because the module keeps several
  references to the same object (the scene's child list and \<^verbatim>\<open>this.candle\<close>, the
  flame group's child list and \<^verbatim>\<open>this.mainFlame\<close>) and mutates through them.

  JavaScript numbers are modelled as reals. Every formula below keeps the operand order
  of the source.
\<close>

type_synonym addr = nat

record vector3 =
  vx :: real
  vy :: real
  vz :: real

text \<open>\<^verbatim>\<open>Vector3.set(x, y, z)\<close> overwrites all three components.\<close>

definition vset :: "real \<Rightarrow> real \<Rightarrow> real \<Rightarrow> vector3 \<Rightarrow> vector3" where
  "vset a b c v = v\<lparr>vx := a, vy := b, vz := c\<rparr>"

datatype node_kind = Object3D | Scene | Group | Mesh | PointLight

datatype geometry = ConeGeometry real real nat | BufferGeometry

record material =
  color :: nat
  transparent :: bool
  opacity :: real
  needsUpdate :: bool

text \<open>
  One record for every kind of node. A field that a kind does not have in THREE.js
  (\<open>intensity\<close> of a mesh, say) holds a default and is never read by the module.
  \<open>rotation\<close> is the Euler triple; \<open>shadowCameraNear\<close> and \<open>shadowCameraFar\<close> stand
  for \<^verbatim>\<open>shadow.camera.near\<close> and \<^verbatim>\<open>shadow.camera.far\<close>.
\<close>

record object3d =
  kind :: node_kind
  parent :: "addr option"
  children :: "addr list"
  position :: vector3
  rotation :: vector3
  scale :: vector3
  castShadow :: bool
  receiveShadow :: bool
  geometry :: "geometry option"
  mat :: "material option"
  lightColor :: nat
  intensity :: real
  distance :: real
  shadowCameraNear :: real
  shadowCameraFar :: real

definition isMesh :: "object3d \<Rightarrow> bool" where
  "isMesh ob = (kind ob = Mesh)"

record heap =
  objs :: "addr \<Rightarrow> object3d"
  fresh :: addr

text \<open>What \<^verbatim>\<open>new THREE.Object3D()\<close> leaves in a node before a subclass fills it in.\<close>

definition blank :: "node_kind \<Rightarrow> object3d" where
  "blank k = \<lparr>kind = k, parent = None, children = [],
     position = \<lparr>vx = 0, vy = 0, vz = 0\<rparr>,
     rotation = \<lparr>vx = 0, vy = 0, vz = 0\<rparr>,
     scale = \<lparr>vx = 1, vy = 1, vz = 1\<rparr>,
     castShadow = False, receiveShadow = False,
     geometry = None, mat = None,
     lightColor = 0, intensity = 0, distance = 0,
     shadowCameraNear = 0.5, shadowCameraFar = 500\<rparr>"

definition new_Group :: object3d where
  "new_Group = blank Group"

definition new_Mesh :: "geometry \<Rightarrow> material \<Rightarrow> object3d" where
  "new_Mesh g m = (blank Mesh)\<lparr>geometry := Some g, mat := Some m\<rparr>"

definition new_MeshBasicMaterial :: "nat \<Rightarrow> bool \<Rightarrow> real \<Rightarrow> material" where
  "new_MeshBasicMaterial c t opac =
     \<lparr>color = c, transparent = t, opacity = opac, needsUpdate = False\<rparr>"

definition new_PointLight :: "nat \<Rightarrow> real \<Rightarrow> real \<Rightarrow> object3d" where
  "new_PointLight c i d = (blank PointLight)\<lparr>lightColor := c, intensity := i, distance := d\<rparr>"

text \<open>\<^verbatim>\<open>new\<close>: the object gets the next unused address.\<close>

definition alloc :: "object3d \<Rightarrow> heap \<Rightarrow> addr \<times> heap" where
  "alloc ob h = (fresh h, h\<lparr>objs := (objs h)(fresh h := ob), fresh := fresh h + 1\<rparr>)"

text \<open>A write through a reference.\<close>

definition upd :: "addr \<Rightarrow> (object3d \<Rightarrow> object3d) \<Rightarrow> heap \<Rightarrow> heap" where
  "upd a f h = h\<lparr>objs := (objs h)(a := f (objs h a))\<rparr>"

text \<open>
  \<^verbatim>\<open>Object3D.remove(object)\<close>: when the object is among the children, its parent link
  is cleared and it is spliced out of the child list; otherwise nothing happens.
\<close>

definition remove_child :: "addr \<Rightarrow> addr \<Rightarrow> heap \<Rightarrow> heap" where
  "remove_child p c h =
     (if c \<in> set (children (objs h p))
      then (let h1 = upd c (\<lambda>ob. ob\<lparr>parent := None\<rparr>) h
            in upd p (\<lambda>ob. ob\<lparr>children := remove1 c (children ob)\<rparr>) h1)
      else h)"

text \<open>
  \<^verbatim>\<open>Object3D.add(object)\<close>: adding an object to itself is refused (an error is logged);
  otherwise the object leaves its current parent, if any, and is pushed onto the child
  list.
\<close>

definition add_child :: "addr \<Rightarrow> addr \<Rightarrow> heap \<Rightarrow> heap" where
  "add_child p c h =
     (if c = p then h
      else (let h1 = (case parent (objs h c) of None \<Rightarrow> h | Some q \<Rightarrow> remove_child q c h);
                h2 = upd c (\<lambda>ob. ob\<lparr>parent := Some p\<rparr>) h1
            in upd p (\<lambda>ob. ob\<lparr>children := children ob @ [c]\<rparr>) h2))"

datatype error = RangeError

text \<open>Running a fallible step over a list, stopping at the first error.\<close>

fun foldE :: "('a \<Rightarrow> 's \<Rightarrow> 'e + 's) \<Rightarrow> 'a list \<Rightarrow> 's \<Rightarrow> 'e + 's" where
  "foldE f [] s = Inr s"
| "foldE f (x # xs) s = (case f x s of Inl e \<Rightarrow> Inl e | Inr s1 \<Rightarrow> foldE f xs s1)"

text \<open>
  \<^verbatim>\<open>Object3D.traverse(callback)\<close>: the callback is applied to the node, then each child
  is traversed in turn. The recursion follows child references through the store. Its
  first argument is the number of nested calls the engine's call stack still has room
  for; with none left the call raises \<^verbatim>\<open>RangeError\<close>, and the store stays as the
  callbacks run so far have left it.
\<close>

fun traverse :: "nat \<Rightarrow> (object3d \<Rightarrow> object3d) \<Rightarrow> addr \<Rightarrow> heap \<Rightarrow> (error \<times> heap) + heap" where
  "traverse 0 cb a h = Inl (RangeError, h)"
| "traverse (Suc n) cb a h =
     (let h1 = upd a cb h
      in foldE (\<lambda>c. traverse n cb c) (children (objs h1 a)) h1)"

text \<open>
  The scene graph a GLTF file parses to, as the loader hands it over: each node with its
  own data and its child nodes. The loader creates the objects bottom up and links each
  child with \<^verbatim>\<open>add\<close>.
\<close>

datatype gltf_node = GltfNode object3d "gltf_node list"

fun alloc_node :: "gltf_node \<Rightarrow> heap \<Rightarrow> addr \<times> heap"
  and alloc_nodes :: "gltf_node list \<Rightarrow> heap \<Rightarrow> addr list \<times> heap" where
  "alloc_node (GltfNode ob cs) h =
     (case alloc_nodes cs h of (as, h1) \<Rightarrow>
        (case alloc (ob\<lparr>parent := None, children := []\<rparr>) h1 of (a, h2) \<Rightarrow>
           (a, fold (add_child a) as h2)))"
| "alloc_nodes [] h = ([], h)"
| "alloc_nodes (c # cs) h =
     (case alloc_node c h of (a, h1) \<Rightarrow>
        (case alloc_nodes cs h1 of (as, h2) \<Rightarrow> (a # as, h2)))"

text \<open>The number of nodes on the longest path from a node down to a leaf.\<close>

fun max_list :: "nat list \<Rightarrow> nat" where
  "max_list [] = 0"
| "max_list (x # xs) = max x (max_list xs)"

fun gltf_depth :: "gltf_node \<Rightarrow> nat" where
  "gltf_depth (GltfNode ob cs) = Suc (max_list (map gltf_depth cs))"

section \<open>The module: class CandleLoader\<close>

text \<open>
  The fields of a \<^verbatim>\<open>CandleLoader\<close> instance. \<^verbatim>\<open>mainFlame\<close> and \<^verbatim>\<open>innerFlame\<close> are
  undefined until \<^verbatim>\<open>createFlame\<close> first runs. The \<^verbatim>\<open>loader\<close> field is the external
  GLTF loader; its outcome is an input of \<open>loadCandle\<close> below.
\<close>

record CandleLoader =
  scene :: addr
  candle :: "addr option"
  flame :: "addr option"
  flameLight :: "addr option"
  mainFlame :: "addr option"
  innerFlame :: "addr option"
  flameTime :: real

type_synonym state = "CandleLoader \<times> heap"

text \<open>
  An operation either returns, or raises an error and leaves the controller and the
  store as they were at that moment.
\<close>

type_synonym 'a result = "(error \<times> state) + 'a"

definition new_CandleLoader :: "addr \<Rightarrow> CandleLoader" where
  "new_CandleLoader sc =
     \<lparr>scene = sc, candle = None, flame = None, flameLight = None,
      mainFlame = None, innerFlame = None, flameTime = 0\<rparr>"

text \<open>The \<^verbatim>\<open>options\<close> argument of \<^verbatim>\<open>loadCandle\<close>: every property may be absent.\<close>

record options =
  opt_x :: "real option"
  opt_y :: "real option"
  opt_z :: "real option"
  opt_scale :: "real option"
  opt_rotation :: "real option"

record PlacementConfig =
  cfg_x :: real
  cfg_y :: real
  cfg_z :: real
  cfg_scale :: real
  cfg_rotation :: real

text \<open>The destructuring with defaults at the top of \<^verbatim>\<open>loadCandle\<close>.\<close>

definition destructure :: "options \<Rightarrow> PlacementConfig" where
  "destructure opts =
     \<lparr>cfg_x = (case opt_x opts of None \<Rightarrow> 0 | Some v \<Rightarrow> v),
      cfg_y = (case opt_y opts of None \<Rightarrow> 0 | Some v \<Rightarrow> v),
      cfg_z = (case opt_z opts of None \<Rightarrow> 0 | Some v \<Rightarrow> v),
      cfg_scale = (case opt_scale opts of None \<Rightarrow> 0.1 | Some v \<Rightarrow> v),
      cfg_rotation = (case opt_rotation opts of None \<Rightarrow> 0 | Some v \<Rightarrow> v)\<rparr>"

text \<open>\<^verbatim>\<open>createFlame(x, y, z, candleScale)\<close>, statement by statement.\<close>

definition createFlame :: "real \<Rightarrow> real \<Rightarrow> real \<Rightarrow> real \<Rightarrow> state \<Rightarrow> state" where
  "createFlame x y z candleScale s =
     (case s of (this, h) \<Rightarrow>
      (case alloc new_Group h of (f, h1) \<Rightarrow>
       let this1 = this\<lparr>flame := Some f\<rparr>;
           flameGeometry = ConeGeometry 0.3 1.0 8;
           flameMaterial = new_MeshBasicMaterial 0xffa500 True 0.8
       in
       (case alloc (new_Mesh flameGeometry flameMaterial) h1 of (mainFlame', h2) \<Rightarrow>
        let h3 = upd mainFlame' (\<lambda>ob. ob\<lparr>position := (position ob)\<lparr>vy := 0.5\<rparr>\<rparr>) h2;
            h4 = add_child f mainFlame' h3;
            innerFlameGeometry = ConeGeometry 0.15 0.7 8;
            innerFlameMaterial = new_MeshBasicMaterial 0xffff00 True 0.9
        in
        (case alloc (new_Mesh innerFlameGeometry innerFlameMaterial) h4 of (innerFlame', h5) \<Rightarrow>
         let h6 = upd innerFlame' (\<lambda>ob. ob\<lparr>position := (position ob)\<lparr>vy := 0.4\<rparr>\<rparr>) h5;
             h7 = add_child f innerFlame' h6;
             this2 = this1\<lparr>mainFlame := Some mainFlame', innerFlame := Some innerFlame'\<rparr>;
             flameHeight = 17 * candleScale;
             h8 = upd f (\<lambda>ob. ob\<lparr>position := vset x (y + flameHeight) z (position ob)\<rparr>) h7;
             h9 = upd f (\<lambda>ob. ob\<lparr>scale :=
                    vset (candleScale * 2) (candleScale * 2) (candleScale * 2) (scale ob)\<rparr>) h8;
             h10 = add_child (scene this2) f h9
         in
         (case alloc (new_PointLight 0xff6600 1.5 10) h10 of (l, h11) \<Rightarrow>
          let this3 = this2\<lparr>flameLight := Some l\<rparr>;
              h12 = upd l (\<lambda>ob. ob\<lparr>position := vset x (y + flameHeight + 0.5) z (position ob)\<rparr>) h11;
              h13 = upd l (\<lambda>ob. ob\<lparr>castShadow := True\<rparr>) h12;
              h14 = upd l (\<lambda>ob. ob\<lparr>shadowCameraNear := 0.1\<rparr>) h13;
              h15 = upd l (\<lambda>ob. ob\<lparr>shadowCameraFar := 10\<rparr>) h14
          in (this3, add_child (scene this3) l h15))))))"

text \<open>
  The callback passed to \<^verbatim>\<open>traverse\<close> in \<^verbatim>\<open>loadCandle\<close>: meshes cast and receive
  shadows, and a mesh's material, when it has one, is flagged for refresh.
\<close>

definition enableShadows :: "object3d \<Rightarrow> object3d" where
  "enableShadows child =
     (if isMesh child
      then (let c1 = child\<lparr>castShadow := True\<rparr>;
                c2 = c1\<lparr>receiveShadow := True\<rparr>
            in (case mat c2 of
                  None \<Rightarrow> c2
                | Some m \<Rightarrow> c2\<lparr>mat := Some (m\<lparr>needsUpdate := True\<rparr>)\<rparr>))
      else child)"

type_synonym load_error = string

text \<open>
  What the external loader does with the single request \<^verbatim>\<open>loadCandle\<close> issues: it calls
  the success callback with the parsed file (of which only \<^verbatim>\<open>gltf.scene\<close> is used), or
  the error callback with an error. The progress callback only logs. \<open>Loaded g k\<close> is a
  call of the success callback with the scene graph \<open>g\<close> at a moment when the engine's
  call stack has room for \<open>k\<close> nested calls below the callback.
\<close>

datatype loader_outcome = Loaded gltf_node nat | Failed load_error

text \<open>How the promise returned by \<^verbatim>\<open>loadCandle\<close> settles.\<close>

datatype promise = Resolved addr | Rejected load_error

text \<open>
  \<^verbatim>\<open>loadCandle(options)\<close>. The call itself only captures the placement and hands the
  two callbacks to the loader; all mutation happens in the callback the loader later
  invokes, so the operation is modelled at that moment, with the loader's outcome as an
  argument. On success the parsed scene graph enters the store as fresh objects and
  \<^verbatim>\<open>gltf.scene\<close> is the address of its root. The success callback assigns
  \<^verbatim>\<open>this.candle\<close> first; when \<^verbatim>\<open>traverse\<close> then exhausts the call stack, the
  callback is cut short there and the result is the error with the state reached, in which
  \<^verbatim>\<open>createFlame\<close> has not run. What becomes of the promise in that case is up to the
  loader and is not modelled; neither is console output.
\<close>

definition loadCandle :: "options \<Rightarrow> loader_outcome \<Rightarrow> state \<Rightarrow> (promise \<times> state) result" where
  "loadCandle opts outcome s =
     (case s of (this, h) \<Rightarrow>
      let cfg = destructure opts;
          x = cfg_x cfg; y = cfg_y cfg; z = cfg_z cfg;
          scale' = cfg_scale cfg; rotation' = cfg_rotation cfg
      in
      (case outcome of
         Failed err \<Rightarrow> Inr (Rejected err, (this, h))
       | Loaded gltf_scene depth \<Rightarrow>
          (case alloc_node gltf_scene h of (c, h0) \<Rightarrow>
           let this1 = this\<lparr>candle := Some c\<rparr>;
               h1 = upd c (\<lambda>ob. ob\<lparr>position := vset x y z (position ob)\<rparr>) h0;
               h2 = upd c (\<lambda>ob. ob\<lparr>scale := vset scale' scale' scale' (scale ob)\<rparr>) h1;
               h3 = upd c (\<lambda>ob. ob\<lparr>rotation := (rotation ob)\<lparr>vy := rotation'\<rparr>\<rparr>) h2
           in
           (case traverse depth enableShadows c h3 of
              Inl (e, hx) \<Rightarrow> Inl (e, (this1, hx))
            | Inr h4 \<Rightarrow>
               (let h5 = add_child (scene this1) c h4
                in (case createFlame x y z scale' (this1, h5) of
                      (this2, h6) \<Rightarrow> Inr (Resolved c, (this2, h6))))))))"

text \<open>\<^verbatim>\<open>removeCandle()\<close>: three independent guarded blocks.\<close>

definition removeCandle :: "state \<Rightarrow> state result" where
  "removeCandle s =
     (case s of (this, h) \<Rightarrow>
      (case (case candle this of
               Some c \<Rightarrow> (this\<lparr>candle := None\<rparr>, remove_child (scene this) c h)
             | None \<Rightarrow> (this, h)) of (this1, h1) \<Rightarrow>
       (case (case flame this1 of
                Some f \<Rightarrow> (this1\<lparr>flame := None\<rparr>, remove_child (scene this1) f h1)
              | None \<Rightarrow> (this1, h1)) of (this2, h2) \<Rightarrow>
        (case (case flameLight this2 of
                 Some l \<Rightarrow> (this2\<lparr>flameLight := None\<rparr>, remove_child (scene this2) l h2)
               | None \<Rightarrow> (this2, h2)) of (this3, h3) \<Rightarrow>
         Inr (this3, h3)))))"

text \<open>\<^verbatim>\<open>updatePosition(x, y, z)\<close>.\<close>

definition updatePosition :: "real \<Rightarrow> real \<Rightarrow> real \<Rightarrow> state \<Rightarrow> state result" where
  "updatePosition x y z s =
     (case s of (this, h) \<Rightarrow>
      (case candle this of
         Some c \<Rightarrow> Inr (this, upd c (\<lambda>ob. ob\<lparr>position := vset x y z (position ob)\<rparr>) h)
       | None \<Rightarrow> Inr (this, h)))"

text \<open>The sum of the three sine terms, as a function of the accumulated time.\<close>

definition totalFlicker :: "real \<Rightarrow> real" where
  "totalFlicker t =
     (let flicker1 = sin (t * 8) * 0.03;
          flicker2 = sin (t * 12.5) * 0.02;
          flicker3 = sin (t * 20) * 0.015
      in flicker1 + flicker2 + flicker3)"

text \<open>
  \<^verbatim>\<open>animate(deltaTime = 0.016)\<close>: an absent argument takes the default. After the early
  return the time is advanced, then the three guarded blocks run in order.
\<close>

definition defaultDelta :: "real option \<Rightarrow> real" where
  "defaultDelta deltaTime = (case deltaTime of None \<Rightarrow> 0.016 | Some d \<Rightarrow> d)"

definition animate :: "real option \<Rightarrow> state \<Rightarrow> state result" where
  "animate deltaTime s =
     (case s of (this, h) \<Rightarrow>
      let dt = defaultDelta deltaTime in
      if flame this = None \<or> flameLight this = None then Inr (this, h)
      else
       (let this1 = this\<lparr>flameTime := flameTime this + dt\<rparr>;
            t = flameTime this1;
            flicker = totalFlicker t;
            h1 = (case mainFlame this1 of
                    Some m \<Rightarrow>
                      (let scaleVar = 1.0 + flicker;
                           ha = upd m (\<lambda>ob. ob\<lparr>scale := vset scaleVar scaleVar scaleVar (scale ob)\<rparr>) h
                       in upd m (\<lambda>ob. ob\<lparr>position := (position ob)\<lparr>vx := sin (t * 5) * 0.02\<rparr>\<rparr>) ha)
                  | None \<Rightarrow> h);
            h2 = (case innerFlame this1 of
                    Some i \<Rightarrow>
                      (let innerScale = 1.0 + flicker * 1.2;
                           hb = upd i (\<lambda>ob. ob\<lparr>scale := vset innerScale innerScale innerScale (scale ob)\<rparr>) h1
                       in upd i (\<lambda>ob. ob\<lparr>position := (position ob)\<lparr>vx := sin (t * 6) * 0.015\<rparr>\<rparr>) hb)
                  | None \<Rightarrow> h1);
            h3 = (case flameLight this1 of
                    Some l \<Rightarrow>
                      (let hc = upd l (\<lambda>ob. ob\<lparr>intensity := 1.5 + flicker * 2\<rparr>) h2;
                           lightBaseY = vy (position (objs hc l))
                       in upd l (\<lambda>ob. ob\<lparr>position := (position ob)\<lparr>vy := lightBaseY + flicker * 0.1\<rparr>\<rparr>) hc)
                  | None \<Rightarrow> h2)
        in Inr (this1, h3)))"

section \<open>Sequences of public operations\<close>

datatype event =
    LoadCandle options loader_outcome
  | RemoveCandle
  | UpdatePosition real real real
  | Animate "real option"

fun step :: "event \<Rightarrow> state \<Rightarrow> state result" where
  "step (LoadCandle opts outcome) s =
     (case loadCandle opts outcome s of Inl es \<Rightarrow> Inl es | Inr (p, s1) \<Rightarrow> Inr s1)"
| "step RemoveCandle s = removeCandle s"
| "step (UpdatePosition x y z) s = updatePosition x y z s"
| "step (Animate deltaTime) s = animate deltaTime s"

text \<open>
  A run of operations in which nothing is raised ends in \<open>Inr\<close> of the state reached; a
  run stops at the first operation that raises.
\<close>

definition run :: "event list \<Rightarrow> state \<Rightarrow> state result" where
  "run es s = foldE step es s"



text \<open>
  An event whose callback has the call stack it needs: a load whose scene graph is no
  deeper than the room the engine has left. Every other event qualifies.
\<close>

fun completes :: "event \<Rightarrow> bool" where
  "completes (LoadCandle opts (Loaded g k)) = (gltf_depth g \<le> k)"
| "completes e = True"

text \<open>The events after which nothing may change once the candle is removed.\<close>

fun inert :: "event \<Rightarrow> bool" where
  "inert (Animate deltaTime) = True"
| "inert (UpdatePosition x y z) = True"
| "inert e = False"

section \<open>A concrete scene for the examples\<close>

text \<open>
  A store holding only the scene, at address 0; a parsed model of a root with one mesh;
  a placement; and the empty options object.
\<close>

definition demo_heap :: heap where
  "demo_heap = \<lparr>objs = (\<lambda>a. blank Scene), fresh = 1\<rparr>"

definition demo_gltf :: gltf_node where
  "demo_gltf = GltfNode (blank Object3D) [GltfNode (new_Mesh BufferGeometry (new_MeshBasicMaterial 0 False 1)) []]"

definition demo_opts :: options where
  "demo_opts = \<lparr>opt_x = Some 1, opt_y = Some 0, opt_z = Some 2, opt_scale = Some 0.5,
      opt_rotation = Some 1.5\<rparr>"

definition no_opts :: options where
  "no_opts = \<lparr>opt_x = None, opt_y = None, opt_z = None, opt_scale = None,
      opt_rotation = None\<rparr>"


section \<open>Auxiliary notions for the proofs\<close>

text \<open>
  Within the addresses from \<open>lo\<close> up to \<open>hi\<close>, every child lies in the same range and
  below its parent. This is what bottom-up allocation of a parsed scene graph produces.
\<close>

definition region_ok :: "heap \<Rightarrow> addr \<Rightarrow> addr \<Rightarrow> bool" where
  "region_ok h lo hi =
     (\<forall>b. lo \<le> b \<and> b < hi \<longrightarrow> (\<forall>c \<in> set (children (objs h b)). lo \<le> c \<and> c < b))"

text \<open>The child lists of a store, and a store holding a given scene graph at an address.\<close>

definition kids :: "heap \<Rightarrow> addr \<Rightarrow> addr list" where
  "kids h b = children (objs h b)"

fun repr :: "(addr \<Rightarrow> addr list) \<Rightarrow> addr \<Rightarrow> gltf_node \<Rightarrow> bool"
  and repr_list :: "(addr \<Rightarrow> addr list) \<Rightarrow> addr list \<Rightarrow> gltf_node list \<Rightarrow> bool" where
  "repr ch a (GltfNode ob ts) = repr_list ch (ch a) ts"
| "repr_list ch [] [] = True"
| "repr_list ch (a # as) (t # ts) = (repr ch a t \<and> repr_list ch as ts)"
| "repr_list ch [] (t # ts) = False"
| "repr_list ch (a # as) [] = False"

text \<open>
  The handles a controller holds after a run in which every callback completed: either
  nothing is loaded, or all of them stem from the same successful load, which allocates
  the model's root, the flame group, the two meshes and the light one after the other.
\<close>

definition loaded_inv :: "CandleLoader \<Rightarrow> bool" where
  "loaded_inv this =
     (case candle this of
        None \<Rightarrow> flame this = None \<and> flameLight this = None
      | Some c \<Rightarrow> flame this = Some (c + 1) \<and> mainFlame this = Some (c + 2)
          \<and> innerFlame this = Some (c + 3) \<and> flameLight this = Some (c + 4))"

text \<open>What holds of the handles after any operations, cut short or not.\<close>

definition handles_inv :: "CandleLoader \<Rightarrow> bool" where
  "handles_inv this =
     ((flame this = None \<longleftrightarrow> flameLight this = None) \<and> (flame this \<noteq> None \<longrightarrow> candle this \<noteq> None))"

section \<open>Store lemmas\<close>

lemma objs_upd [simp]: "objs (upd a f h) b = (if b = a then f (objs h a) else objs h b)"
  by (simp add: upd_def)

lemma fresh_upd [simp]: "fresh (upd a f h) = fresh h"
  by (simp add: upd_def)

lemma fresh_remove_child [simp]: "fresh (remove_child p c h) = fresh h"
  by (simp add: remove_child_def Let_def)

lemma fresh_add_child [simp]: "fresh (add_child p c h) = fresh h"
  by (simp add: add_child_def Let_def split: option.split)

lemma remove_child_proj:
  assumes "\<And>ob cs. P (ob\<lparr>children := cs\<rparr>) = P ob"
    and "\<And>ob q. P (ob\<lparr>parent := q\<rparr>) = P ob"
  shows "P (objs (remove_child p c h) b) = P (objs h b)"
  using assms by (simp add: remove_child_def Let_def)

lemma add_child_proj:
  assumes "\<And>ob cs. P (ob\<lparr>children := cs\<rparr>) = P ob"
    and "\<And>ob q. P (ob\<lparr>parent := q\<rparr>) = P ob"
  shows "P (objs (add_child p c h) b) = P (objs h b)"
  using assms by (simp add: add_child_def Let_def remove_child_proj split: option.split)

lemma foldE_invariant:
  assumes "\<And>x s s1. I s \<Longrightarrow> f x s = Inr s1 \<Longrightarrow> I s1"
    and "I s" and "foldE f xs s = Inr s'"
  shows "I s'"
  using assms(2,3)
proof (induction xs arbitrary: s)
  case Nil
  then show ?case by simp
next
  case (Cons x xs)
  then show ?case using assms(1) by (auto split: sum.splits)
qed

lemma traverse_proj:
  assumes cb: "\<And>ob. P (cb ob) = P ob"
    and "traverse n cb a h = Inr h'"
  shows "(\<forall>b. P (objs h' b) = P (objs h b)) \<and> fresh h' = fresh h"
  using assms(2)
proof (induction n arbitrary: a h h')
  case 0
  then show ?case by simp
next
  case (Suc n)
  let ?h1 = "upd a cb h"
  let ?I = "\<lambda>s. (\<forall>b. P (objs s b) = P (objs h b)) \<and> fresh s = fresh h"
  have start: "?I ?h1" using cb by simp
  have stepI: "\<And>x s s1. ?I s \<Longrightarrow> traverse n cb x s = Inr s1 \<Longrightarrow> ?I s1"
    using Suc.IH by metis
  from Suc.prems have "foldE (\<lambda>c. traverse n cb c) (children (objs ?h1 a)) ?h1 = Inr h'"
    by (simp add: Let_def)
  from foldE_invariant[where I = ?I and f = "\<lambda>c. traverse n cb c", OF stepI start this]
  show ?case .
qed

lemma children_remove_child:
  "children (objs (remove_child p c h) b) =
     (if b = p \<and> c \<in> set (children (objs h p)) then remove1 c (children (objs h p))
      else children (objs h b))"
  by (simp add: remove_child_def Let_def)

lemma children_remove_child_subset:
  "set (children (objs (remove_child p c h) b)) \<subseteq> set (children (objs h b))"
  using set_remove1_subset[of c "children (objs h p)"]
  by (simp add: children_remove_child)

lemma region_ok_subset:
  "\<forall>b. set (children (objs h' b)) \<subseteq> set (children (objs h b)) \<Longrightarrow>
   region_ok h lo hi \<Longrightarrow> region_ok h' lo hi"
  unfolding region_ok_def by blast

lemma region_ok_children_eq:
  assumes "\<forall>b. children (objs h' b) = children (objs h b)" and "region_ok h lo hi"
  shows "region_ok h' lo hi"
proof (rule region_ok_subset[OF _ assms(2)])
  show "\<forall>b. set (children (objs h' b)) \<subseteq> set (children (objs h b))"
    using assms(1) by (metis subset_refl)
qed

lemma region_ok_remove_child:
  "region_ok h lo hi \<Longrightarrow> region_ok (remove_child p c h) lo hi"
  by (rule region_ok_subset) (simp_all add: children_remove_child_subset)

lemma children_add_child:
  "c \<noteq> a \<Longrightarrow> children (objs (add_child a c h) b) =
     (let h1 = (case parent (objs h c) of None \<Rightarrow> h | Some q \<Rightarrow> remove_child q c h)
      in if b = a then children (objs h1 a) @ [c] else children (objs h1 b))"
  by (simp add: add_child_def Let_def)

lemma region_ok_add_child:
  assumes "region_ok h lo hi" "lo \<le> c" "c < a"
  shows "region_ok (add_child a c h) lo hi"
proof -
  let ?h1 = "case parent (objs h c) of None \<Rightarrow> h | Some q \<Rightarrow> remove_child q c h"
  have 1: "region_ok ?h1 lo hi"
    using assms(1) by (simp add: region_ok_remove_child split: option.split)
  have ne: "c \<noteq> a" using assms(3) by simp
  show ?thesis
    unfolding region_ok_def
  proof (intro allI impI ballI)
    fix b x
    assume b: "lo \<le> b \<and> b < hi" and x: "x \<in> set (children (objs (add_child a c h) b))"
    show "lo \<le> x \<and> x < b"
    proof (cases "b = a")
      case True
      with x ne have "x \<in> set (children (objs ?h1 a)) \<or> x = c"
        by (auto simp add: children_add_child Let_def)
      then show ?thesis using 1 b True assms(2,3) unfolding region_ok_def by blast
    next
      case False
      with x ne have "x \<in> set (children (objs ?h1 b))"
        by (simp add: children_add_child Let_def)
      then show ?thesis using 1 b unfolding region_ok_def by blast
    qed
  qed
qed

lemma region_ok_foldl_add:
  assumes "region_ok h lo hi" "\<forall>c \<in> set cs. lo \<le> c \<and> c < a"
  shows "region_ok (fold (add_child a) cs h) lo hi"
  using assms by (induction cs arbitrary: h) (simp_all add: region_ok_add_child)

lemma fresh_foldl_add [simp]: "fresh (fold (add_child a) cs h) = fresh h"
  by (induction cs arbitrary: h) simp_all

lemma region_ok_alloc:
  assumes "region_ok h lo (fresh h)" "children ob = []"
  shows "region_ok (snd (alloc ob h)) lo (Suc (fresh h))"
  unfolding region_ok_def
proof (intro allI impI ballI)
  fix b c
  assume b: "lo \<le> b \<and> b < Suc (fresh h)"
    and c: "c \<in> set (children (objs (snd (alloc ob h)) b))"
  have ob: "objs (snd (alloc ob h)) b = (if b = fresh h then ob else objs h b)"
    by (simp add: alloc_def)
  show "lo \<le> c \<and> c < b"
  proof (cases "b = fresh h")
    case True
    with c ob assms(2) show ?thesis by simp
  next
    case False
    with b have "lo \<le> b \<and> b < fresh h" by simp
    moreover from False c ob have "c \<in> set (children (objs h b))" by simp
    ultimately show ?thesis using assms(1) unfolding region_ok_def by blast
  qed
qed

lemma alloc_region:
  "lo \<le> fresh h \<Longrightarrow> region_ok h lo (fresh h) \<Longrightarrow> alloc_node t h = (a, h') \<Longrightarrow>
     region_ok h' lo (fresh h') \<and> fresh h \<le> a \<and> fresh h' = Suc a"
  "lo \<le> fresh h \<Longrightarrow> region_ok h lo (fresh h) \<Longrightarrow> alloc_nodes ts h = (as, h') \<Longrightarrow>
     region_ok h' lo (fresh h') \<and> fresh h \<le> fresh h' \<and> (\<forall>c \<in> set as. fresh h \<le> c \<and> c < fresh h')"
proof (induction t h and ts h arbitrary: a h' and as h' rule: alloc_node_alloc_nodes.induct)
  case (1 ob cs h)
  obtain as h1 where ch: "alloc_nodes cs h = (as, h1)" by (cases "alloc_nodes cs h")
  from "1.IH"[OF "1.prems"(1,2) ch]
  have r1: "region_ok h1 lo (fresh h1)" and le: "fresh h \<le> fresh h1"
    and cs: "\<forall>c \<in> set as. fresh h \<le> c \<and> c < fresh h1" by auto
  let ?ob = "ob\<lparr>parent := None, children := []\<rparr>"
  have a: "a = fresh h1" and h': "h' = fold (add_child a) as (snd (alloc ?ob h1))"
    using "1.prems"(3) ch by (auto simp: alloc_def)
  have r2: "region_ok (snd (alloc ?ob h1)) lo (Suc (fresh h1))"
    using r1 by (intro region_ok_alloc) simp_all
  have cs': "\<forall>c \<in> set as. lo \<le> c \<and> c < a"
    using cs a "1.prems"(1) by auto
  have "region_ok h' lo (Suc (fresh h1))"
    unfolding h' using r2 cs' by (rule region_ok_foldl_add)
  moreover have "fresh h' = Suc (fresh h1)"
    unfolding h' by (simp add: alloc_def)
  moreover have "fresh h \<le> a" using a le by simp
  ultimately show ?case using a by simp
next
  case (2 h)
  then show ?case by simp
next
  case (3 c cs h)
  obtain a1 h1 where c1: "alloc_node c h = (a1, h1)" by (cases "alloc_node c h")
  obtain as2 h2 where c2: "alloc_nodes cs h1 = (as2, h2)" by (cases "alloc_nodes cs h1")
  from "3.IH"(1)[OF "3.prems"(1,2) c1]
  have r1: "region_ok h1 lo (fresh h1)" and le1: "fresh h \<le> a1" and f1: "fresh h1 = Suc a1" by auto
  have lo1: "lo \<le> fresh h1" using "3.prems"(1) le1 f1 by simp
  from "3.IH"(2)[OF c1[symmetric] lo1 r1 c2]
  have r2: "region_ok h2 lo (fresh h2)" and le2: "fresh h1 \<le> fresh h2"
    and cs2: "\<forall>c \<in> set as2. fresh h1 \<le> c \<and> c < fresh h2" by auto
  have eq: "as = a1 # as2" "h' = h2" using "3.prems"(3) c1 c2 by auto
  have "fresh h \<le> fresh h2" using le1 f1 le2 by linarith
  moreover have "\<forall>c \<in> set as. fresh h \<le> c \<and> c < fresh h2"
  proof
    fix x assume "x \<in> set as"
    then have "x = a1 \<or> x \<in> set as2" using eq by simp
    then show "fresh h \<le> x \<and> x < fresh h2"
    proof
      assume "x = a1" then show ?thesis using le1 f1 le2 by linarith
    next
      assume "x \<in> set as2"
      with cs2 have "fresh h1 \<le> x \<and> x < fresh h2" by blast
      then show ?thesis using le1 f1 by linarith
    qed
  qed
  ultimately show ?case using r2 eq by simp
qed

lemma foldE_total:
  assumes "\<And>x s. x \<in> set xs \<Longrightarrow> I s \<Longrightarrow> \<exists>s1. f x s = Inr s1 \<and> I s1"
    and "I s"
  shows "\<exists>s'. foldE f xs s = Inr s' \<and> I s'"
  using assms
proof (induction xs arbitrary: s)
  case Nil
  then show ?case by simp
next
  case (Cons x xs)
  from Cons.prems(1)[of x s] Cons.prems(2)
  obtain s1 where s1: "f x s = Inr s1" "I s1" by auto
  from Cons.IH[of s1] Cons.prems(1) s1(2)
  obtain s' where "foldE f xs s1 = Inr s'" "I s'" by auto
  with s1 show ?case by simp
qed

lemma fst_alloc [simp]: "fst (alloc ob h) = fresh h"
  by (simp add: alloc_def)

lemma fresh_alloc [simp]: "fresh (snd (alloc ob h)) = Suc (fresh h)"
  by (simp add: alloc_def)

lemma objs_alloc [simp]: "objs (snd (alloc ob h)) b = (if b = fresh h then ob else objs h b)"
  by (simp add: alloc_def)

lemma case_alloc: "(case alloc ob h of (a, h') \<Rightarrow> F a h') = F (fresh h) (snd (alloc ob h))"
  by (simp add: alloc_def)

lemmas position_add_child [simp] = add_child_proj[of position, simplified]
lemmas rotation_add_child [simp] = add_child_proj[of rotation, simplified]
lemmas scale_add_child [simp] = add_child_proj[of scale, simplified]
lemmas intensity_add_child [simp] = add_child_proj[of intensity, simplified]
lemmas position_remove_child [simp] = remove_child_proj[of position, simplified]
lemmas rotation_remove_child [simp] = remove_child_proj[of rotation, simplified]
lemmas scale_remove_child [simp] = remove_child_proj[of scale, simplified]
lemmas intensity_remove_child [simp] = remove_child_proj[of intensity, simplified]

lemma createFlame_this:
  "fst (createFlame x y z cs (this, h)) =
     this\<lparr>flame := Some (fresh h), flameLight := Some (fresh h + 3),
          mainFlame := Some (fresh h + 1), innerFlame := Some (fresh h + 2)\<rparr>"
  by (simp add: createFlame_def Let_def case_alloc)

lemma vset_eq [simp]: "vset a b c v = \<lparr>vx = a, vy = b, vz = c\<rparr>"
  by (cases v) (simp add: vset_def)

lemma createFlame_fresh:
  "fresh (snd (createFlame x y z cs (this, h))) = fresh h + 4"
  by (simp add: createFlame_def Let_def case_alloc)

lemma createFlame_flame_position:
  "position (objs (snd (createFlame x y z cs (this, h))) (fresh h)) =
     \<lparr>vx = x, vy = y + 17 * cs, vz = z\<rparr>"
  by (simp add: createFlame_def Let_def case_alloc)

lemma createFlame_flame_scale:
  "scale (objs (snd (createFlame x y z cs (this, h))) (fresh h)) =
     \<lparr>vx = cs * 2, vy = cs * 2, vz = cs * 2\<rparr>"
  by (simp add: createFlame_def Let_def case_alloc)

lemma createFlame_light_position:
  "position (objs (snd (createFlame x y z cs (this, h))) (fresh h + 3)) =
     \<lparr>vx = x, vy = y + 17 * cs + 0.5, vz = z\<rparr>"
  by (simp add: createFlame_def Let_def case_alloc)

lemma createFlame_old:
  assumes "b < fresh h"
  shows "position (objs (snd (createFlame x y z cs (this, h))) b) = position (objs h b)"
    and "scale (objs (snd (createFlame x y z cs (this, h))) b) = scale (objs h b)"
    and "rotation (objs (snd (createFlame x y z cs (this, h))) b) = rotation (objs h b)"
  using assms by (simp_all add: createFlame_def Let_def case_alloc)

lemma max_list_ge: "x \<in> set xs \<Longrightarrow> x \<le> max_list xs"
  by (induction xs) auto

lemma max_list_le_iff: "max_list xs \<le> n \<longleftrightarrow> (\<forall>x \<in> set xs. x \<le> n)"
  by (induction xs) auto

lemma max_list_gt: "n < max_list xs \<Longrightarrow> \<exists>x \<in> set xs. n < x"
  by (induction xs) (auto simp: max_def split: if_splits)

lemma gltf_depth_pos: "0 < gltf_depth t"
  by (cases t) simp

lemma kids_upd: "children (f (objs h a)) = children (objs h a) \<Longrightarrow> kids (upd a f h) = kids h"
  by (rule ext) (simp add: kids_def)

lemma traverse_kids:
  assumes cb: "\<And>ob. children (cb ob) = children ob"
    and "traverse n cb a h = Inr h'"
  shows "kids h' = kids h"
  using traverse_proj[of children cb, OF cb assms(2)]
  by (intro ext) (simp add: kids_def)

lemma traverse_children_ok:
  assumes cb: "\<And>ob. children (cb ob) = children ob"
    and IH: "\<And>a t h. repr (kids h) a t \<Longrightarrow> gltf_depth t \<le> n \<Longrightarrow>
               \<exists>h'. traverse n cb a h = Inr h'"
  shows "repr_list (kids s) as ts \<Longrightarrow> \<forall>t \<in> set ts. gltf_depth t \<le> n \<Longrightarrow>
         \<exists>s'. foldE (\<lambda>c. traverse n cb c) as s = Inr s'"
proof (induction as arbitrary: ts s)
  case Nil
  then show ?case by simp
next
  case (Cons a as)
  from Cons.prems(1) obtain t ts' where ts: "ts = t # ts'"
    and r: "repr (kids s) a t" and rs: "repr_list (kids s) as ts'"
    by (cases ts) auto
  from Cons.prems(2) ts have d: "gltf_depth t \<le> n" and ds: "\<forall>t \<in> set ts'. gltf_depth t \<le> n"
    by auto
  from IH[OF r d] obtain s1 where s1: "traverse n cb a s = Inr s1" by blast
  have k: "kids s1 = kids s" using cb s1 by (rule traverse_kids)
  from Cons.IH[of s1 ts'] rs ds k
  obtain s' where "foldE (\<lambda>c. traverse n cb c) as s1 = Inr s'" by auto
  with s1 show ?case by simp
qed

lemma traverse_ok:
  assumes cb: "\<And>ob. children (cb ob) = children ob"
  shows "repr (kids h) a t \<Longrightarrow> gltf_depth t \<le> n \<Longrightarrow> \<exists>h'. traverse n cb a h = Inr h'"
proof (induction n arbitrary: a t h)
  case 0
  then show ?case using gltf_depth_pos[of t] by simp
next
  case (Suc n)
  obtain ob ts where t: "t = GltfNode ob ts" by (cases t)
  let ?h1 = "upd a cb h"
  have k1: "kids ?h1 = kids h" using cb by (intro kids_upd) simp
  have ca: "children (objs ?h1 a) = kids h a" by (simp add: kids_def cb)
  have rl: "repr_list (kids ?h1) (children (objs ?h1 a)) ts"
    using Suc.prems(1) unfolding t k1 ca by simp
  have ds: "\<forall>t' \<in> set ts. gltf_depth t' \<le> n"
    using Suc.prems(2) unfolding t by (simp add: max_list_le_iff)
  from traverse_children_ok[of cb n, OF cb Suc.IH rl ds]
  show ?case by (simp add: Let_def)
qed

lemma traverse_children_fail:
  assumes cb: "\<And>ob. children (cb ob) = children ob"
    and IH: "\<And>a t h. repr (kids h) a t \<Longrightarrow> n < gltf_depth t \<Longrightarrow>
               \<exists>e h'. traverse n cb a h = Inl (e, h')"
  shows "repr_list (kids s) as ts \<Longrightarrow> \<exists>t \<in> set ts. n < gltf_depth t \<Longrightarrow>
         \<exists>e s'. foldE (\<lambda>c. traverse n cb c) as s = Inl (e, s')"
proof (induction as arbitrary: ts s)
  case Nil
  then show ?case by (cases ts) auto
next
  case (Cons a as)
  from Cons.prems(1) obtain t ts' where ts: "ts = t # ts'"
    and r: "repr (kids s) a t" and rs: "repr_list (kids s) as ts'"
    by (cases ts) auto
  show ?case
  proof (cases "traverse n cb a s")
    case (Inl es)
    then show ?thesis by (cases es) simp
  next
    case (Inr s1)
    have k: "kids s1 = kids s" using cb Inr by (rule traverse_kids)
    have "\<not> n < gltf_depth t" using IH[OF r] Inr by auto
    with Cons.prems(2) ts have "\<exists>t \<in> set ts'. n < gltf_depth t" by auto
    from Cons.IH[of s1 ts'] rs k this
    obtain e s' where "foldE (\<lambda>c. traverse n cb c) as s1 = Inl (e, s')" by auto
    with Inr show ?thesis by simp
  qed
qed

lemma traverse_fail:
  assumes cb: "\<And>ob. children (cb ob) = children ob"
  shows "repr (kids h) a t \<Longrightarrow> n < gltf_depth t \<Longrightarrow> \<exists>e h'. traverse n cb a h = Inl (e, h')"
proof (induction n arbitrary: a t h)
  case 0
  then show ?case by simp
next
  case (Suc n)
  obtain ob ts where t: "t = GltfNode ob ts" by (cases t)
  let ?h1 = "upd a cb h"
  have k1: "kids ?h1 = kids h" using cb by (intro kids_upd) simp
  have ca: "children (objs ?h1 a) = kids h a" by (simp add: kids_def cb)
  have rl: "repr_list (kids ?h1) (children (objs ?h1 a)) ts"
    using Suc.prems(1) unfolding t k1 ca by simp
  have "n < max_list (map gltf_depth ts)" using Suc.prems(2) unfolding t by simp
  from max_list_gt[OF this] have ds: "\<exists>t' \<in> set ts. n < gltf_depth t'" by auto
  from traverse_children_fail[of cb n, OF cb Suc.IH rl ds]
  show ?case by (simp add: Let_def)
qed

lemma add_child_fresh:
  "c \<noteq> a \<Longrightarrow> parent (objs h c) = None \<Longrightarrow>
   add_child a c h =
     upd a (\<lambda>ob. ob\<lparr>children := children ob @ [c]\<rparr>) (upd c (\<lambda>ob. ob\<lparr>parent := Some a\<rparr>) h)"
  by (simp add: add_child_def)

lemma fold_add_child:
  assumes "a \<notin> set as" "distinct as" "\<forall>c \<in> set as. parent (objs h c) = None"
  shows "objs (fold (add_child a) as h) b =
     (if b = a then (objs h a)\<lparr>children := children (objs h a) @ as\<rparr>
      else if b \<in> set as then (objs h b)\<lparr>parent := Some a\<rparr>
      else objs h b)"
  using assms
proof (induction as arbitrary: h)
  case Nil
  then show ?case by simp
next
  case (Cons c as)
  have ca: "c \<noteq> a" and pc: "parent (objs h c) = None" using Cons.prems by auto
  let ?h1 = "add_child a c h"
  have h1: "?h1 = upd a (\<lambda>ob. ob\<lparr>children := children ob @ [c]\<rparr>)
                    (upd c (\<lambda>ob. ob\<lparr>parent := Some a\<rparr>) h)"
    using ca pc by (rule add_child_fresh)
  have o1: "objs ?h1 x = (if x = a then (objs h a)\<lparr>children := children (objs h a) @ [c]\<rparr>
              else if x = c then (objs h c)\<lparr>parent := Some a\<rparr> else objs h x)" for x
    unfolding h1 using ca by simp
  have p1: "\<forall>c' \<in> set as. parent (objs ?h1 c') = None"
  proof
    fix c' assume c': "c' \<in> set as"
    then have "c' \<noteq> a" "c' \<noteq> c" using Cons.prems(1,2) by auto
    then show "parent (objs ?h1 c') = None" using o1[of c'] Cons.prems(3) c' by simp
  qed
  have F: "objs (fold (add_child a) as ?h1) b =
     (if b = a then (objs ?h1 a)\<lparr>children := children (objs ?h1 a) @ as\<rparr>
      else if b \<in> set as then (objs ?h1 b)\<lparr>parent := Some a\<rparr>
      else objs ?h1 b)"
    using Cons.prems(1,2) p1 by (intro Cons.IH) auto
  have cn: "c \<notin> set as" using Cons.prems(2) by simp
  have st: "fold (add_child a) (c # as) h = fold (add_child a) as ?h1" by simp
  have oa: "objs ?h1 a = (objs h a)\<lparr>children := children (objs h a) @ [c]\<rparr>"
    using o1[of a] by simp
  have oc: "objs ?h1 c = (objs h c)\<lparr>parent := Some a\<rparr>"
    using o1[of c] ca by simp
  show ?case
  proof (cases "b = a")
    case True
    have "objs (fold (add_child a) as ?h1) a =
        (objs ?h1 a)\<lparr>children := children (objs ?h1 a) @ as\<rparr>"
      using F True by simp
    also have "\<dots> = (objs h a)\<lparr>children := children (objs h a) @ c # as\<rparr>"
      unfolding oa by simp
    finally show ?thesis unfolding st using True by simp
  next
    case ba: False
    show ?thesis
    proof (cases "b = c")
      case True
      have "objs (fold (add_child a) as ?h1) c = objs ?h1 c"
        using F True ca cn by simp
      then show ?thesis unfolding st oc using True ca by simp
    next
      case bc: False
      have "objs ?h1 b = objs h b" using o1[of b] ba bc by simp
      then have "objs (fold (add_child a) as ?h1) b =
          (if b \<in> set as then (objs h b)\<lparr>parent := Some a\<rparr> else objs h b)"
        using F ba by simp
      then show ?thesis unfolding st using ba bc by simp
    qed
  qed
qed

lemma repr_list_mono:
  assumes "\<And>t a. t \<in> set ts \<Longrightarrow> a \<in> set as \<Longrightarrow> repr ch a t \<Longrightarrow> repr ch' a t"
  shows "repr_list ch as ts \<Longrightarrow> repr_list ch' as ts"
  using assms
proof (induction as arbitrary: ts)
  case Nil
  then show ?case by (cases ts) simp_all
next
  case (Cons a as)
  show ?case
  proof (cases ts)
    case Nil
    with Cons.prems(1) show ?thesis by simp
  next
    case (Cons t ts')
    have 1: "repr ch a t" and 2: "repr_list ch as ts'"
      using Cons.prems(1) unfolding Cons by simp_all
    have "repr ch' a t" using Cons.prems(2)[of t a] 1 unfolding Cons by simp
    moreover have "repr_list ch' as ts'"
    proof (rule Cons.IH[OF 2])
      fix t0 a0 assume "t0 \<in> set ts'" "a0 \<in> set as" "repr ch a0 t0"
      then show "repr ch' a0 t0" using Cons.prems(2)[of t0 a0] unfolding Cons by simp
    qed
    ultimately show ?thesis unfolding Cons by simp
  qed
qed

lemma repr_agree:
  assumes reg: "\<forall>b. lo \<le> b \<and> b < hi \<longrightarrow> (\<forall>c \<in> set (ch b). lo \<le> c \<and> c < b)"
    and agree: "\<forall>b. lo \<le> b \<and> b < hi \<longrightarrow> ch' b = ch b"
  shows "lo \<le> a \<Longrightarrow> a < hi \<Longrightarrow> repr ch a t \<Longrightarrow> repr ch' a t"
proof (induction t arbitrary: a)
  case (GltfNode ob ts)
  have in_range: "\<forall>c \<in> set (ch a). lo \<le> c \<and> c < hi"
  proof
    fix c assume "c \<in> set (ch a)"
    with reg GltfNode.prems(1,2) have "lo \<le> c \<and> c < a" by blast
    with GltfNode.prems(2) show "lo \<le> c \<and> c < hi" by simp
  qed
  have eq: "ch' a = ch a" using agree GltfNode.prems(1,2) by blast
  have rl: "repr_list ch (ch a) ts" using GltfNode.prems(3) by simp
  have "repr_list ch' (ch a) ts"
  proof (rule repr_list_mono[OF _ rl])
    fix t0 a0 assume "t0 \<in> set ts" "a0 \<in> set (ch a)" "repr ch a0 t0"
    then show "repr ch' a0 t0" using GltfNode.IH[of t0 a0] in_range by blast
  qed
  then show ?case using eq by simp
qed

lemma repr_list_agree:
  assumes reg: "\<forall>b. lo \<le> b \<and> b < hi \<longrightarrow> (\<forall>c \<in> set (ch b). lo \<le> c \<and> c < b)"
    and agree: "\<forall>b. lo \<le> b \<and> b < hi \<longrightarrow> ch' b = ch b"
    and "\<forall>c \<in> set as. lo \<le> c \<and> c < hi" and "repr_list ch as ts"
  shows "repr_list ch' as ts"
proof (rule repr_list_mono[OF _ assms(4)])
  fix t0 a0 assume "t0 \<in> set ts" "a0 \<in> set as" "repr ch a0 t0"
  then show "repr ch' a0 t0" using repr_agree[OF reg agree, of a0 t0] assms(3) by blast
qed

lemma region_ok_empty: "region_ok h lo lo"
  by (simp add: region_ok_def)

lemma region_ok_kids:
  "region_ok h lo hi \<Longrightarrow> \<forall>b. lo \<le> b \<and> b < hi \<longrightarrow> (\<forall>c \<in> set (kids h b). lo \<le> c \<and> c < b)"
  unfolding region_ok_def kids_def by blast

lemma alloc_shape:
  "alloc_node t h = (a, h') \<Longrightarrow>
     fresh h \<le> a \<and> fresh h' = Suc a \<and> (\<forall>b < fresh h. objs h' b = objs h b)
     \<and> parent (objs h' a) = None \<and> repr (kids h') a t"
  "alloc_nodes ts h = (as, h') \<Longrightarrow>
     fresh h \<le> fresh h' \<and> (\<forall>b < fresh h. objs h' b = objs h b)
     \<and> (\<forall>c \<in> set as. fresh h \<le> c \<and> c < fresh h' \<and> parent (objs h' c) = None)
     \<and> distinct as \<and> repr_list (kids h') as ts"
proof (induction t h and ts h arbitrary: a h' and as h' rule: alloc_node_alloc_nodes.induct)
  case (1 ob cs h)
  obtain as h1 where ch: "alloc_nodes cs h = (as, h1)" by (cases "alloc_nodes cs h")
  from "1.IH"[OF ch]
  have le: "fresh h \<le> fresh h1" and fr1: "\<forall>b < fresh h. objs h1 b = objs h b"
    and cs: "\<forall>c \<in> set as. fresh h \<le> c \<and> c < fresh h1 \<and> parent (objs h1 c) = None"
    and di: "distinct as" and rl: "repr_list (kids h1) as cs"
    by auto
  from alloc_region(2)[OF le_refl region_ok_empty ch]
  have reg1: "region_ok h1 (fresh h) (fresh h1)" by blast
  let ?ob = "ob\<lparr>parent := None, children := []\<rparr>"
  let ?h2 = "snd (alloc ?ob h1)"
  have a: "a = fresh h1" and h': "h' = fold (add_child a) as ?h2"
    using "1.prems" ch by (auto simp: alloc_def)
  have o2: "objs ?h2 b = (if b = a then ?ob else objs h1 b)" for b
    unfolding a by simp
  have na: "a \<notin> set as" using cs a by auto
  have p2: "\<forall>c \<in> set as. parent (objs ?h2 c) = None"
  proof
    fix c assume c: "c \<in> set as"
    with na have "c \<noteq> a" by auto
    then show "parent (objs ?h2 c) = None" using o2[of c] cs c by simp
  qed
  note O = fold_add_child[OF na di p2]
  have f': "fresh h' = Suc a" unfolding h' a by simp
  have frame: "\<forall>b < fresh h. objs h' b = objs h b"
  proof (intro allI impI)
    fix b assume b: "b < fresh h"
    then have "b \<noteq> a" "b \<notin> set as" using le a cs by auto
    then have "objs h' b = objs ?h2 b" unfolding h' using O[of b] by simp
    also have "\<dots> = objs h1 b" using o2[of b] \<open>b \<noteq> a\<close> by simp
    also have "\<dots> = objs h b" using fr1 b by simp
    finally show "objs h' b = objs h b" .
  qed
  have oa: "objs h' a = ?ob\<lparr>children := as\<rparr>"
    unfolding h' using O[of a] o2[of a] by simp
  have pa: "parent (objs h' a) = None" unfolding oa by simp
  have ka: "kids h' a = as" unfolding kids_def oa by simp
  have agree: "\<forall>b. fresh h \<le> b \<and> b < fresh h1 \<longrightarrow> kids h' b = kids h1 b"
  proof (intro allI impI)
    fix b assume "fresh h \<le> b \<and> b < fresh h1"
    then have ba: "b \<noteq> a" using a by simp
    show "kids h' b = kids h1 b"
    proof (cases "b \<in> set as")
      case True
      then have "objs h' b = (objs ?h2 b)\<lparr>parent := Some a\<rparr>"
        unfolding h' using O[of b] ba by simp
      then show ?thesis unfolding kids_def using o2[of b] ba by simp
    next
      case False
      then have "objs h' b = objs ?h2 b" unfolding h' using O[of b] ba by simp
      then show ?thesis unfolding kids_def using o2[of b] ba by simp
    qed
  qed
  have in_range: "\<forall>c \<in> set as. fresh h \<le> c \<and> c < fresh h1" using cs by blast
  have "repr_list (kids h') as cs"
    by (rule repr_list_agree[OF region_ok_kids[OF reg1] agree in_range rl])
  then have "repr (kids h') a (GltfNode ob cs)" using ka by simp
  moreover have "fresh h \<le> a" using le a by simp
  ultimately show ?case using f' frame pa by blast
next
  case (2 h)
  then show ?case by simp
next
  case (3 c cs h)
  obtain a1 h1 where c1: "alloc_node c h = (a1, h1)" by (cases "alloc_node c h")
  obtain as2 h2 where c2: "alloc_nodes cs h1 = (as2, h2)" by (cases "alloc_nodes cs h1")
  from "3.IH"(1)[OF c1]
  have le1: "fresh h \<le> a1" and f1: "fresh h1 = Suc a1"
    and fr1: "\<forall>b < fresh h. objs h1 b = objs h b"
    and p1: "parent (objs h1 a1) = None" and r1: "repr (kids h1) a1 c"
    by auto
  from "3.IH"(2)[OF c1[symmetric] c2]
  have le2: "fresh h1 \<le> fresh h2" and fr2: "\<forall>b < fresh h1. objs h2 b = objs h1 b"
    and cs2: "\<forall>x \<in> set as2. fresh h1 \<le> x \<and> x < fresh h2 \<and> parent (objs h2 x) = None"
    and di2: "distinct as2" and rl2: "repr_list (kids h2) as2 cs"
    by auto
  from alloc_region(1)[OF le_refl region_ok_empty c1]
  have reg1: "region_ok h1 (fresh h) (fresh h1)" by blast
  have eq: "as = a1 # as2" "h' = h2" using "3.prems" c1 c2 by auto
  have a1lt: "a1 < fresh h1" using f1 by simp
  have agree: "\<forall>b. fresh h \<le> b \<and> b < fresh h1 \<longrightarrow> kids h2 b = kids h1 b"
    using fr2 unfolding kids_def by simp
  have ra: "repr (kids h2) a1 c"
    by (rule repr_agree[OF region_ok_kids[OF reg1] agree le1 a1lt r1])
  have "fresh h \<le> fresh h2" using le1 f1 le2 by linarith
  moreover have "\<forall>b < fresh h. objs h2 b = objs h b"
  proof (intro allI impI)
    fix b assume b: "b < fresh h"
    then have "b < fresh h1" using le1 f1 by linarith
    then show "objs h2 b = objs h b" using fr2 fr1 b by simp
  qed
  moreover have "\<forall>x \<in> set as. fresh h \<le> x \<and> x < fresh h2 \<and> parent (objs h2 x) = None"
  proof
    fix x assume "x \<in> set as"
    then have "x = a1 \<or> x \<in> set as2" using eq by simp
    then show "fresh h \<le> x \<and> x < fresh h2 \<and> parent (objs h2 x) = None"
    proof
      assume x: "x = a1"
      have "parent (objs h2 a1) = None" using fr2 a1lt p1 by simp
      then show ?thesis using x le1 f1 le2 by simp
    next
      assume "x \<in> set as2"
      with cs2 have "fresh h1 \<le> x \<and> x < fresh h2 \<and> parent (objs h2 x) = None" by blast
      then show ?thesis using le1 f1 by linarith
    qed
  qed
  moreover have "distinct as"
  proof -
    have "a1 \<notin> set as2" using cs2 a1lt by auto
    then show ?thesis using di2 eq by simp
  qed
  moreover have "repr_list (kids h2) as (c # cs)" using ra rl2 eq by simp
  ultimately show ?case using eq by simp
qed

section \<open>Lemmas about the operations\<close>

lemma enableShadows_keeps:
  "children (enableShadows ob) = children ob"
  "position (enableShadows ob) = position ob"
  "scale (enableShadows ob) = scale ob"
  "rotation (enableShadows ob) = rotation ob"
  by (simp_all add: enableShadows_def Let_def split: option.split)

lemma createFlame_meshes:
  "position (objs (snd (createFlame x y z cs (this, h))) (fresh h + 1)) = \<lparr>vx = 0, vy = 0.5, vz = 0\<rparr>"
  "scale (objs (snd (createFlame x y z cs (this, h))) (fresh h + 1)) = \<lparr>vx = 1, vy = 1, vz = 1\<rparr>"
  "position (objs (snd (createFlame x y z cs (this, h))) (fresh h + 2)) = \<lparr>vx = 0, vy = 0.4, vz = 0\<rparr>"
  "scale (objs (snd (createFlame x y z cs (this, h))) (fresh h + 2)) = \<lparr>vx = 1, vy = 1, vz = 1\<rparr>"
  "intensity (objs (snd (createFlame x y z cs (this, h))) (fresh h + 3)) = 1.5"
  by (simp_all add: createFlame_def Let_def case_alloc new_Mesh_def new_PointLight_def blank_def)

lemma loadCandle_Failed:
  "loadCandle opts (Failed err) s = Inr (Rejected err, s)"
  by (cases s) (simp add: loadCandle_def Let_def)

text \<open>The state in which the success callback reaches \<open>traverse\<close>.\<close>

lemma loadCandle_before_traverse:
  "\<exists>c h3. fresh h \<le> c \<and> fresh h3 = Suc c \<and> repr (kids h3) c g
      \<and> position (objs h3 c) =
          \<lparr>vx = cfg_x (destructure opts), vy = cfg_y (destructure opts), vz = cfg_z (destructure opts)\<rparr>
      \<and> scale (objs h3 c) =
          \<lparr>vx = cfg_scale (destructure opts), vy = cfg_scale (destructure opts),
           vz = cfg_scale (destructure opts)\<rparr>
      \<and> vy (rotation (objs h3 c)) = cfg_rotation (destructure opts)
      \<and> loadCandle opts (Loaded g k) (this, h) =
          (case traverse k enableShadows c h3 of
             Inl (e, hx) \<Rightarrow> Inl (e, (this\<lparr>candle := Some c\<rparr>, hx))
           | Inr h4 \<Rightarrow>
               Inr (Resolved c,
                    createFlame (cfg_x (destructure opts)) (cfg_y (destructure opts))
                      (cfg_z (destructure opts)) (cfg_scale (destructure opts))
                      (this\<lparr>candle := Some c\<rparr>, add_child (scene this) c h4)))"
proof -
  define cfg where "cfg = destructure opts"
  obtain c h0 where al: "alloc_node g h = (c, h0)" by (cases "alloc_node g h")
  from alloc_shape(1)[OF al]
  have lo: "fresh h \<le> c" and f0: "fresh h0 = Suc c" and r0: "repr (kids h0) c g"
    by auto
  define h1 where "h1 = upd c (\<lambda>ob. ob\<lparr>position := vset (cfg_x cfg) (cfg_y cfg) (cfg_z cfg) (position ob)\<rparr>) h0"
  define h2 where "h2 = upd c (\<lambda>ob. ob\<lparr>scale := vset (cfg_scale cfg) (cfg_scale cfg) (cfg_scale cfg) (scale ob)\<rparr>) h1"
  define h3 where "h3 = upd c (\<lambda>ob. ob\<lparr>rotation := (rotation ob)\<lparr>vy := cfg_rotation cfg\<rparr>\<rparr>) h2"
  have k3: "kids h3 = kids h0"
    by (rule ext) (simp add: kids_def h3_def h2_def h1_def)
  have r3: "repr (kids h3) c g" unfolding k3 by (rule r0)
  have f3: "fresh h3 = Suc c" by (simp add: h3_def h2_def h1_def f0)
  have p3: "position (objs h3 c) = \<lparr>vx = cfg_x cfg, vy = cfg_y cfg, vz = cfg_z cfg\<rparr>"
    and s3: "scale (objs h3 c) = \<lparr>vx = cfg_scale cfg, vy = cfg_scale cfg, vz = cfg_scale cfg\<rparr>"
    and ro3: "vy (rotation (objs h3 c)) = cfg_rotation cfg"
    by (simp_all add: h3_def h2_def h1_def)
  have "loadCandle opts (Loaded g k) (this, h) =
          (case traverse k enableShadows c h3 of
             Inl (e, hx) \<Rightarrow> Inl (e, (this\<lparr>candle := Some c\<rparr>, hx))
           | Inr h4 \<Rightarrow>
               Inr (Resolved c, createFlame (cfg_x cfg) (cfg_y cfg) (cfg_z cfg) (cfg_scale cfg)
                     (this\<lparr>candle := Some c\<rparr>, add_child (scene this) c h4)))"
    using al
    by (simp add: loadCandle_def Let_def cfg_def h1_def h2_def h3_def split: sum.split prod.split)
  with lo f3 r3 p3 s3 ro3 show ?thesis unfolding cfg_def by blast
qed

lemma loadCandle_throws:
  assumes "k < gltf_depth g"
  shows "\<exists>e c hx. loadCandle opts (Loaded g k) (this, h) = Inl (e, (this\<lparr>candle := Some c\<rparr>, hx))"
proof -
  from loadCandle_before_traverse[of h g opts k this]
  obtain c h3 where r3: "repr (kids h3) c g"
    and lc: "loadCandle opts (Loaded g k) (this, h) =
          (case traverse k enableShadows c h3 of
             Inl (e, hx) \<Rightarrow> Inl (e, (this\<lparr>candle := Some c\<rparr>, hx))
           | Inr h4 \<Rightarrow>
               Inr (Resolved c,
                    createFlame (cfg_x (destructure opts)) (cfg_y (destructure opts))
                      (cfg_z (destructure opts)) (cfg_scale (destructure opts))
                      (this\<lparr>candle := Some c\<rparr>, add_child (scene this) c h4)))"
    by blast
  from traverse_fail[of enableShadows h3 c g k, OF enableShadows_keeps(1) r3 assms]
  obtain e hx where "traverse k enableShadows c h3 = Inl (e, hx)" by blast
  then have "loadCandle opts (Loaded g k) (this, h) = Inl (e, (this\<lparr>candle := Some c\<rparr>, hx))"
    unfolding lc by simp
  then show ?thesis by blast
qed

lemma loadCandle_resolves:
  assumes "gltf_depth g \<le> k"
  shows "\<exists>c h'. loadCandle opts (Loaded g k) (this, h) =
        Inr (Resolved c,
             (this\<lparr>candle := Some c, flame := Some (c + 1), flameLight := Some (c + 4),
                   mainFlame := Some (c + 2), innerFlame := Some (c + 3)\<rparr>, h'))
      \<and> position (objs h' c) =
          \<lparr>vx = cfg_x (destructure opts), vy = cfg_y (destructure opts), vz = cfg_z (destructure opts)\<rparr>
      \<and> scale (objs h' c) =
          \<lparr>vx = cfg_scale (destructure opts), vy = cfg_scale (destructure opts),
           vz = cfg_scale (destructure opts)\<rparr>
      \<and> vy (rotation (objs h' c)) = cfg_rotation (destructure opts)
      \<and> position (objs h' (c + 1)) =
          \<lparr>vx = cfg_x (destructure opts),
           vy = cfg_y (destructure opts) + 17 * cfg_scale (destructure opts),
           vz = cfg_z (destructure opts)\<rparr>
      \<and> scale (objs h' (c + 1)) =
          \<lparr>vx = cfg_scale (destructure opts) * 2, vy = cfg_scale (destructure opts) * 2,
           vz = cfg_scale (destructure opts) * 2\<rparr>
      \<and> position (objs h' (c + 4)) =
          \<lparr>vx = cfg_x (destructure opts),
           vy = cfg_y (destructure opts) + 17 * cfg_scale (destructure opts) + 0.5,
           vz = cfg_z (destructure opts)\<rparr>
      \<and> intensity (objs h' (c + 4)) = 1.5
      \<and> position (objs h' (c + 2)) = \<lparr>vx = 0, vy = 0.5, vz = 0\<rparr>
      \<and> scale (objs h' (c + 2)) = \<lparr>vx = 1, vy = 1, vz = 1\<rparr>
      \<and> position (objs h' (c + 3)) = \<lparr>vx = 0, vy = 0.4, vz = 0\<rparr>
      \<and> scale (objs h' (c + 3)) = \<lparr>vx = 1, vy = 1, vz = 1\<rparr>"
proof -
  define x where "x = cfg_x (destructure opts)"
  define y where "y = cfg_y (destructure opts)"
  define z where "z = cfg_z (destructure opts)"
  define sc where "sc = cfg_scale (destructure opts)"
  define r where "r = cfg_rotation (destructure opts)"
  from loadCandle_before_traverse[of h g opts k this]
  obtain c h3 where f3: "fresh h3 = Suc c" and r3: "repr (kids h3) c g"
    and p3: "position (objs h3 c) = \<lparr>vx = x, vy = y, vz = z\<rparr>"
    and s3: "scale (objs h3 c) = \<lparr>vx = sc, vy = sc, vz = sc\<rparr>"
    and ro3: "vy (rotation (objs h3 c)) = r"
    and lc: "loadCandle opts (Loaded g k) (this, h) =
          (case traverse k enableShadows c h3 of
             Inl (e, hx) \<Rightarrow> Inl (e, (this\<lparr>candle := Some c\<rparr>, hx))
           | Inr h4 \<Rightarrow>
               Inr (Resolved c, createFlame x y z sc
                      (this\<lparr>candle := Some c\<rparr>, add_child (scene this) c h4)))"
    unfolding x_def y_def z_def sc_def r_def by blast
  from traverse_ok[of enableShadows h3 c g k, OF enableShadows_keeps(1) r3 assms]
  obtain h4 where tr: "traverse k enableShadows c h3 = Inr h4" by blast
  have f4: "fresh h4 = Suc c"
    using traverse_proj[of position enableShadows, OF _ tr] f3 by (simp add: enableShadows_keeps)
  have p4: "position (objs h4 c) = position (objs h3 c)"
    using traverse_proj[of position enableShadows, OF _ tr] by (simp add: enableShadows_keeps)
  have s4: "scale (objs h4 c) = scale (objs h3 c)"
    using traverse_proj[of scale enableShadows, OF _ tr] by (simp add: enableShadows_keeps)
  have r4: "rotation (objs h4 c) = rotation (objs h3 c)"
    using traverse_proj[of rotation enableShadows, OF _ tr] by (simp add: enableShadows_keeps)
  define h5 where "h5 = add_child (scene this) c h4"
  define this1 where "this1 = this\<lparr>candle := Some c\<rparr>"
  let ?s = "createFlame x y z sc (this1, h5)"
  have f5: "fresh h5 = Suc c" by (simp add: h5_def f4)
  have old: "c < fresh h5" using f5 by simp
  have res: "loadCandle opts (Loaded g k) (this, h) = Inr (Resolved c, (fst ?s, snd ?s))"
    unfolding lc tr h5_def this1_def by simp
  have t: "fst ?s = this\<lparr>candle := Some c, flame := Some (c + 1), flameLight := Some (c + 4),
                   mainFlame := Some (c + 2), innerFlame := Some (c + 3)\<rparr>"
    using f5 by (simp add: createFlame_this this1_def)
  have pc: "position (objs (snd ?s) c) = \<lparr>vx = x, vy = y, vz = z\<rparr>"
    using createFlame_old(1)[OF old] p4 p3 by (simp add: h5_def)
  have scc: "scale (objs (snd ?s) c) = \<lparr>vx = sc, vy = sc, vz = sc\<rparr>"
    using createFlame_old(2)[OF old] s4 s3 by (simp add: h5_def)
  have rc: "vy (rotation (objs (snd ?s) c)) = r"
    using createFlame_old(3)[OF old] r4 ro3 by (simp add: h5_def)
  have e1: "fresh h5 = c + 1" and e2: "fresh h5 + 1 = c + 2" and e3: "fresh h5 + 2 = c + 3"
    and e4: "fresh h5 + 3 = c + 4"
    using f5 by simp_all
  have pf: "position (objs (snd ?s) (c + 1)) = \<lparr>vx = x, vy = y + 17 * sc, vz = z\<rparr>"
    using createFlame_flame_position[of x y z sc this1 h5] unfolding e1 .
  have sf: "scale (objs (snd ?s) (c + 1)) = \<lparr>vx = sc * 2, vy = sc * 2, vz = sc * 2\<rparr>"
    using createFlame_flame_scale[of x y z sc this1 h5] unfolding e1 .
  have pl: "position (objs (snd ?s) (c + 4)) = \<lparr>vx = x, vy = y + 17 * sc + 0.5, vz = z\<rparr>"
    using createFlame_light_position[of x y z sc this1 h5] unfolding e4 .
  have ms: "intensity (objs (snd ?s) (c + 4)) = 1.5"
    "position (objs (snd ?s) (c + 2)) = \<lparr>vx = 0, vy = 0.5, vz = 0\<rparr>"
    "scale (objs (snd ?s) (c + 2)) = \<lparr>vx = 1, vy = 1, vz = 1\<rparr>"
    "position (objs (snd ?s) (c + 3)) = \<lparr>vx = 0, vy = 0.4, vz = 0\<rparr>"
    "scale (objs (snd ?s) (c + 3)) = \<lparr>vx = 1, vy = 1, vz = 1\<rparr>"
    using createFlame_meshes[of x y z sc this1 h5] unfolding e2 e3 e4 by blast+
  have res': "loadCandle opts (Loaded g k) (this, h) =
        Inr (Resolved c,
             (this\<lparr>candle := Some c, flame := Some (c + 1), flameLight := Some (c + 4),
                   mainFlame := Some (c + 2), innerFlame := Some (c + 3)\<rparr>, snd ?s))"
    using res unfolding t .
  from res' pc scc rc pf sf pl ms show ?thesis
    unfolding x_def[symmetric] y_def[symmetric] z_def[symmetric] sc_def[symmetric] r_def[symmetric]
    by blast
qed

lemma removeCandle_result:
  "\<exists>h'. removeCandle (this, h) =
          Inr (this\<lparr>candle := None, flame := None, flameLight := None\<rparr>, h')
        \<and> fresh h' = fresh h"
  by (cases "candle this"; cases "flame this"; cases "flameLight this")
     (simp_all add: removeCandle_def)

lemma removeCandle_nothing_loaded:
  "candle this = None \<Longrightarrow> flame this = None \<Longrightarrow> flameLight this = None \<Longrightarrow>
   removeCandle (this, h) = Inr (this, h)"
  by (simp add: removeCandle_def)

lemma updatePosition_result:
  "\<exists>h'. updatePosition x y z (this, h) = Inr (this, h')"
  by (simp add: updatePosition_def split: option.split)

lemma updatePosition_nothing_loaded:
  "candle this = None \<Longrightarrow> updatePosition x y z (this, h) = Inr (this, h)"
  by (simp add: updatePosition_def)

lemma animate_nothing_loaded:
  "flame this = None \<or> flameLight this = None \<Longrightarrow> animate dt (this, h) = Inr (this, h)"
  by (simp add: animate_def Let_def)

lemma animate_result:
  "\<exists>h'. animate dt (this, h) =
          Inr (if flame this = None \<or> flameLight this = None then this
               else this\<lparr>flameTime := flameTime this + defaultDelta dt\<rparr>, h')"
  by (simp add: animate_def Let_def defaultDelta_def)

lemma loadCandle_handles:
  assumes "gltf_depth g \<le> k"
  shows "\<exists>c s2. loadCandle opts (Loaded g k) s = Inr (Resolved c, s2)
     \<and> candle (fst s2) = Some c \<and> flame (fst s2) = Some (c + 1)
     \<and> mainFlame (fst s2) = Some (c + 2) \<and> innerFlame (fst s2) = Some (c + 3)
     \<and> flameLight (fst s2) = Some (c + 4)
     \<and> flameTime (fst s2) = flameTime (fst s) \<and> scene (fst s2) = scene (fst s)"
proof (cases s)
  case (Pair this h)
  from loadCandle_resolves[OF assms, of opts this h]
  obtain c h' where "loadCandle opts (Loaded g k) (this, h) =
      Inr (Resolved c, (this\<lparr>candle := Some c, flame := Some (c + 1), flameLight := Some (c + 4),
             mainFlame := Some (c + 2), innerFlame := Some (c + 3)\<rparr>, h'))" by blast
  then show ?thesis unfolding Pair by simp
qed

lemma loadCandle_cut_short:
  assumes "k < gltf_depth g"
  shows "\<exists>e s2. loadCandle opts (Loaded g k) s = Inl (e, s2)
     \<and> candle (fst s2) \<noteq> None \<and> flame (fst s2) = flame (fst s)
     \<and> flameLight (fst s2) = flameLight (fst s)"
proof (cases s)
  case (Pair this h)
  from loadCandle_throws[OF assms, of opts this h]
  obtain e c hx where "loadCandle opts (Loaded g k) (this, h) =
      Inl (e, (this\<lparr>candle := Some c\<rparr>, hx))" by blast
  then show ?thesis unfolding Pair by simp
qed

lemma removeCandle_handles:
  "\<exists>s1. removeCandle s = Inr s1
     \<and> candle (fst s1) = None \<and> flame (fst s1) = None \<and> flameLight (fst s1) = None
     \<and> flameTime (fst s1) = flameTime (fst s) \<and> scene (fst s1) = scene (fst s)
     \<and> mainFlame (fst s1) = mainFlame (fst s) \<and> innerFlame (fst s1) = innerFlame (fst s)"
proof (cases s)
  case (Pair this h)
  from removeCandle_result[of this h]
  obtain h' where "removeCandle (this, h) =
          Inr (this\<lparr>candle := None, flame := None, flameLight := None\<rparr>, h')" by blast
  then show ?thesis unfolding Pair by simp
qed

lemma step_completes:
  assumes "completes e"
  shows "\<exists>s'. step e s = Inr s'"
proof (cases e)
  case (LoadCandle opts outcome)
  show ?thesis
  proof (cases outcome)
    case (Loaded g k)
    with assms LoadCandle have "gltf_depth g \<le> k" by simp
    from loadCandle_handles[OF this, of opts s] show ?thesis
      unfolding LoadCandle Loaded by auto
  next
    case (Failed err)
    then show ?thesis unfolding LoadCandle by (simp add: loadCandle_Failed)
  qed
next
  case RemoveCandle
  then show ?thesis using removeCandle_handles[of s] by auto
next
  case (UpdatePosition x y z)
  then show ?thesis using updatePosition_result[of x y z "fst s" "snd s"] by auto
next
  case (Animate dt)
  then show ?thesis using animate_result[of dt "fst s" "snd s"] by auto
qed

lemma step_not_completes:
  assumes "\<not> completes e"
  shows "\<exists>er s'. step e s = Inl (er, s')"
proof -
  from assms obtain opts g k where e: "e = LoadCandle opts (Loaded g k)" and d: "k < gltf_depth g"
    by (cases e rule: completes.cases) auto
  from loadCandle_cut_short[OF d, of opts s] show ?thesis unfolding e by auto
qed




lemma run_Inr_completes:
  "run es s = Inr s' \<Longrightarrow> list_all completes es"
  unfolding run_def
proof (induction es arbitrary: s)
  case Nil
  then show ?case by simp
next
  case (Cons e es)
  have c: "completes e" using step_not_completes[of e s] Cons.prems by (auto split: sum.splits)
  from step_completes[OF c, of s] obtain s1 where s1: "step e s = Inr s1" by blast
  with Cons.prems have "foldE step es s1 = Inr s'" by simp
  from Cons.IH[OF this] c show ?case by simp
qed




lemma loaded_inv_handles: "loaded_inv this \<Longrightarrow> handles_inv this"
  by (auto simp: loaded_inv_def handles_inv_def split: option.splits)




lemma inert_step:
  assumes "candle (fst s) = None" "flame (fst s) = None" "inert e"
  shows "step e s = Inr s"
proof (cases s)
  case (Pair this h)
  then show ?thesis
    using assms
    by (cases e) (simp_all add: animate_nothing_loaded updatePosition_nothing_loaded)
qed

lemma inert_run:
  assumes "candle (fst s) = None" "flame (fst s) = None" "list_all inert es"
  shows "run es s = Inr s"
  using assms(3) unfolding run_def
  by (induction es) (simp_all add: inert_step[OF assms(1,2)])


text \<open>The example scene and the states the examples start from.\<close>

lemma demo_depth: "gltf_depth demo_gltf \<le> 10000" "1 < gltf_depth demo_gltf"
  by (simp_all add: demo_gltf_def)


lemma destructure_fields:
  "destructure \<lparr>opt_x = ox, opt_y = oy, opt_z = oz, opt_scale = osc, opt_rotation = orot\<rparr> =
     \<lparr>cfg_x = (case ox of None \<Rightarrow> 0 | Some v \<Rightarrow> v),
      cfg_y = (case oy of None \<Rightarrow> 0 | Some v \<Rightarrow> v),
      cfg_z = (case oz of None \<Rightarrow> 0 | Some v \<Rightarrow> v),
      cfg_scale = (case osc of None \<Rightarrow> 0.1 | Some v \<Rightarrow> v),
      cfg_rotation = (case orot of None \<Rightarrow> 0 | Some v \<Rightarrow> v)\<rparr>"
  by (simp add: destructure_def)

lemma demo_loaded:
  "\<exists>this h c. run [LoadCandle demo_opts (Loaded demo_gltf 10000)] (new_CandleLoader 0, demo_heap)
       = Inr (this, h)
     \<and> candle this = Some c \<and> flameLight this = Some (c + 4)
     \<and> mainFlame this = Some (c + 2) \<and> innerFlame this = Some (c + 3)
     \<and> flameTime this = 0
     \<and> position (objs h (c + 4)) = \<lparr>vx = 1, vy = 9, vz = 2\<rparr>
     \<and> intensity (objs h (c + 4)) = 1.5
     \<and> position (objs h (c + 2)) = \<lparr>vx = 0, vy = 0.5, vz = 0\<rparr>
     \<and> scale (objs h (c + 2)) = \<lparr>vx = 1, vy = 1, vz = 1\<rparr>"
proof -
  from loadCandle_resolves[OF demo_depth(1), of demo_opts "new_CandleLoader 0" demo_heap]
  obtain c h' where
    lc: "loadCandle demo_opts (Loaded demo_gltf 10000) (new_CandleLoader 0, demo_heap) =
        Inr (Resolved c,
             ((new_CandleLoader 0)\<lparr>candle := Some c, flame := Some (c + 1), flameLight := Some (c + 4),
                   mainFlame := Some (c + 2), innerFlame := Some (c + 3)\<rparr>, h'))"
    and pl: "position (objs h' (c + 4)) =
          \<lparr>vx = cfg_x (destructure demo_opts),
           vy = cfg_y (destructure demo_opts) + 17 * cfg_scale (destructure demo_opts) + 0.5,
           vz = cfg_z (destructure demo_opts)\<rparr>"
    and il: "intensity (objs h' (c + 4)) = 1.5"
    and pm: "position (objs h' (c + 2)) = \<lparr>vx = 0, vy = 0.5, vz = 0\<rparr>"
    and sm: "scale (objs h' (c + 2)) = \<lparr>vx = 1, vy = 1, vz = 1\<rparr>"
    by blast
  let ?th = "(new_CandleLoader 0)\<lparr>candle := Some c, flame := Some (c + 1), flameLight := Some (c + 4),
                   mainFlame := Some (c + 2), innerFlame := Some (c + 3)\<rparr>"
  have r: "run [LoadCandle demo_opts (Loaded demo_gltf 10000)] (new_CandleLoader 0, demo_heap)
       = Inr (?th, h')"
    by (simp add: run_def lc)
  have pl': "position (objs h' (c + 4)) = \<lparr>vx = 1, vy = 9, vz = 2\<rparr>"
    using pl by (simp add: destructure_def demo_opts_def)
  have t0: "flameTime ?th = 0" by (simp add: new_CandleLoader_def)
  have hs: "candle ?th = Some c" "flameLight ?th = Some (c + 4)"
    "mainFlame ?th = Some (c + 2)" "innerFlame ?th = Some (c + 3)" by simp_all
  from r hs t0 pl' il pm sm show ?thesis by blast
qed




section \<open>Placement on load\<close>

text \<open>
  Claim C1. Whatever \<open>x\<close>, \<open>y\<close>, \<open>z\<close>, \<open>scale\<close> and \<open>rotation\<close> the options object
  carries (a field that is absent takes its default: 0 for \<open>x\<close>, \<open>y\<close>, \<open>z\<close> and
  \<open>rotation\<close>, 0.1 for \<open>scale\<close>), and whatever the controller, the store and the
  parsed model, a load whose success callback runs to its end (the parsed scene graph is
  no deeper than the call stack allows) resolves with the model's root node, and in the
  resulting store that node's position is \<open>(x, y, z)\<close>, its scale is
  \<open>(scale, scale, scale)\<close> and the Y component of its rotation is \<open>rotation\<close>.
\<close>

theorem loadCandle_places_model:
  assumes "gltf_depth g \<le> k"
  shows "\<exists>c this' h'.
       loadCandle \<lparr>opt_x = ox, opt_y = oy, opt_z = oz, opt_scale = osc, opt_rotation = orot\<rparr>
         (Loaded g k) (this, h) = Inr (Resolved c, (this', h'))
     \<and> candle this' = Some c
     \<and> position (objs h' c) =
         \<lparr>vx = (case ox of None \<Rightarrow> 0 | Some x \<Rightarrow> x),
          vy = (case oy of None \<Rightarrow> 0 | Some y \<Rightarrow> y),
          vz = (case oz of None \<Rightarrow> 0 | Some z \<Rightarrow> z)\<rparr>
     \<and> scale (objs h' c) =
         \<lparr>vx = (case osc of None \<Rightarrow> 0.1 | Some s \<Rightarrow> s),
          vy = (case osc of None \<Rightarrow> 0.1 | Some s \<Rightarrow> s),
          vz = (case osc of None \<Rightarrow> 0.1 | Some s \<Rightarrow> s)\<rparr>
     \<and> vy (rotation (objs h' c)) = (case orot of None \<Rightarrow> 0 | Some r \<Rightarrow> r)"
proof -
  let ?opts = "\<lparr>opt_x = ox, opt_y = oy, opt_z = oz, opt_scale = osc, opt_rotation = orot\<rparr>"
  from loadCandle_resolves[OF assms, of ?opts this h]
  obtain c h' where
    "loadCandle ?opts (Loaded g k) (this, h) =
        Inr (Resolved c,
             (this\<lparr>candle := Some c, flame := Some (c + 1), flameLight := Some (c + 4),
                   mainFlame := Some (c + 2), innerFlame := Some (c + 3)\<rparr>, h'))"
    and "position (objs h' c) =
          \<lparr>vx = cfg_x (destructure ?opts), vy = cfg_y (destructure ?opts), vz = cfg_z (destructure ?opts)\<rparr>"
    and "scale (objs h' c) =
          \<lparr>vx = cfg_scale (destructure ?opts), vy = cfg_scale (destructure ?opts),
           vz = cfg_scale (destructure ?opts)\<rparr>"
    and "vy (rotation (objs h' c)) = cfg_rotation (destructure ?opts)"
    by blast
  then show ?thesis unfolding destructure_fields by simp
qed

text \<open>
  The placement \<open>{x: 1, y: 0, z: 2, scale: 0.5, rotation: 1.5}\<close>, and the empty options
  object, each on a fresh controller.
\<close>

theorem loadCandle_places_model_witness:
  "gltf_depth demo_gltf \<le> 10000
   \<and> (\<exists>c this' h'.
        loadCandle demo_opts (Loaded demo_gltf 10000) (new_CandleLoader 0, demo_heap) =
          Inr (Resolved c, (this', h'))
      \<and> candle this' = Some c
      \<and> position (objs h' c) = \<lparr>vx = 1, vy = 0, vz = 2\<rparr>
      \<and> scale (objs h' c) = \<lparr>vx = 0.5, vy = 0.5, vz = 0.5\<rparr>
      \<and> vy (rotation (objs h' c)) = 1.5)
   \<and> (\<exists>c this' h'.
        loadCandle no_opts (Loaded demo_gltf 10000) (new_CandleLoader 0, demo_heap) =
          Inr (Resolved c, (this', h'))
      \<and> candle this' = Some c
      \<and> position (objs h' c) = \<lparr>vx = 0, vy = 0, vz = 0\<rparr>
      \<and> scale (objs h' c) = \<lparr>vx = 0.1, vy = 0.1, vz = 0.1\<rparr>
      \<and> vy (rotation (objs h' c)) = 0)"
proof -
  note d = demo_depth(1)
  from loadCandle_places_model[OF d, of "Some 1" "Some 0" "Some 2" "Some 0.5" "Some 1.5"
      "new_CandleLoader 0" demo_heap]
  have 1: "\<exists>c this' h'.
        loadCandle demo_opts (Loaded demo_gltf 10000) (new_CandleLoader 0, demo_heap) =
          Inr (Resolved c, (this', h'))
      \<and> candle this' = Some c
      \<and> position (objs h' c) = \<lparr>vx = 1, vy = 0, vz = 2\<rparr>
      \<and> scale (objs h' c) = \<lparr>vx = 0.5, vy = 0.5, vz = 0.5\<rparr>
      \<and> vy (rotation (objs h' c)) = 1.5"
    by (simp add: demo_opts_def)
  from loadCandle_places_model[OF d, of None None None None None "new_CandleLoader 0" demo_heap]
  have 2: "\<exists>c this' h'.
        loadCandle no_opts (Loaded demo_gltf 10000) (new_CandleLoader 0, demo_heap) =
          Inr (Resolved c, (this', h'))
      \<and> candle this' = Some c
      \<and> position (objs h' c) = \<lparr>vx = 0, vy = 0, vz = 0\<rparr>
      \<and> scale (objs h' c) = \<lparr>vx = 0.1, vy = 0.1, vz = 0.1\<rparr>
      \<and> vy (rotation (objs h' c)) = 0"
    by (simp add: no_opts_def)
  from d 1 2 show ?thesis by blast
qed

text \<open>
  Claim C2. After a successful load with \<open>x\<close>, \<open>y\<close>, \<open>z\<close> and \<open>scale\<close> taken from the
  options object (or their defaults 0, 0, 0 and 0.1), the flame group sits at
  \<open>(x, y + 17 * scale, z)\<close> with scale \<open>2 * scale\<close> on all three axes, and the point
  light sits at \<open>(x, y + 17 * scale + 0.5, z)\<close>.
\<close>

theorem createFlame_places_flame_and_light:
  assumes "gltf_depth g \<le> k"
  shows "\<exists>c f l this' h'.
       loadCandle \<lparr>opt_x = ox, opt_y = oy, opt_z = oz, opt_scale = osc, opt_rotation = orot\<rparr>
         (Loaded g k) (this, h) = Inr (Resolved c, (this', h'))
     \<and> flame this' = Some f \<and> flameLight this' = Some l
     \<and> (let x = (case ox of None \<Rightarrow> 0 | Some v \<Rightarrow> v);
             y = (case oy of None \<Rightarrow> 0 | Some v \<Rightarrow> v);
             z = (case oz of None \<Rightarrow> 0 | Some v \<Rightarrow> v);
             sc = (case osc of None \<Rightarrow> 0.1 | Some v \<Rightarrow> v)
         in position (objs h' f) = \<lparr>vx = x, vy = y + 17 * sc, vz = z\<rparr>
          \<and> scale (objs h' f) = \<lparr>vx = 2 * sc, vy = 2 * sc, vz = 2 * sc\<rparr>
          \<and> position (objs h' l) = \<lparr>vx = x, vy = y + 17 * sc + 0.5, vz = z\<rparr>)"
proof -
  let ?opts = "\<lparr>opt_x = ox, opt_y = oy, opt_z = oz, opt_scale = osc, opt_rotation = orot\<rparr>"
  from loadCandle_resolves[OF assms, of ?opts this h]
  obtain c h' where
    lc: "loadCandle ?opts (Loaded g k) (this, h) =
        Inr (Resolved c,
             (this\<lparr>candle := Some c, flame := Some (c + 1), flameLight := Some (c + 4),
                   mainFlame := Some (c + 2), innerFlame := Some (c + 3)\<rparr>, h'))"
    and pf: "position (objs h' (c + 1)) =
          \<lparr>vx = cfg_x (destructure ?opts),
           vy = cfg_y (destructure ?opts) + 17 * cfg_scale (destructure ?opts),
           vz = cfg_z (destructure ?opts)\<rparr>"
    and sf: "scale (objs h' (c + 1)) =
          \<lparr>vx = cfg_scale (destructure ?opts) * 2, vy = cfg_scale (destructure ?opts) * 2,
           vz = cfg_scale (destructure ?opts) * 2\<rparr>"
    and pl: "position (objs h' (c + 4)) =
          \<lparr>vx = cfg_x (destructure ?opts),
           vy = cfg_y (destructure ?opts) + 17 * cfg_scale (destructure ?opts) + 0.5,
           vz = cfg_z (destructure ?opts)\<rparr>"
    by blast
  let ?this' = "this\<lparr>candle := Some c, flame := Some (c + 1), flameLight := Some (c + 4),
                   mainFlame := Some (c + 2), innerFlame := Some (c + 3)\<rparr>"
  have "flame ?this' = Some (c + 1)" "flameLight ?this' = Some (c + 4)" by simp_all
  moreover have "let x = (case ox of None \<Rightarrow> 0 | Some v \<Rightarrow> v);
             y = (case oy of None \<Rightarrow> 0 | Some v \<Rightarrow> v);
             z = (case oz of None \<Rightarrow> 0 | Some v \<Rightarrow> v);
             sc = (case osc of None \<Rightarrow> 0.1 | Some v \<Rightarrow> v)
         in position (objs h' (c + 1)) = \<lparr>vx = x, vy = y + 17 * sc, vz = z\<rparr>
          \<and> scale (objs h' (c + 1)) = \<lparr>vx = 2 * sc, vy = 2 * sc, vz = 2 * sc\<rparr>
          \<and> position (objs h' (c + 4)) = \<lparr>vx = x, vy = y + 17 * sc + 0.5, vz = z\<rparr>"
    using pf sf pl unfolding destructure_fields Let_def by (simp add: mult.commute)
  ultimately show ?thesis using lc by blast
qed

text \<open>
  The placement \<open>{x: 1, y: 0, z: 2, scale: 0.5}\<close>: the flame group at height 8.5 with
  scale 1, the light at height 9.
\<close>

theorem createFlame_places_flame_and_light_witness:
  "gltf_depth demo_gltf \<le> 10000
   \<and> (\<exists>c f l this' h'.
        loadCandle demo_opts (Loaded demo_gltf 10000) (new_CandleLoader 0, demo_heap) =
          Inr (Resolved c, (this', h'))
      \<and> flame this' = Some f \<and> flameLight this' = Some l
      \<and> position (objs h' f) = \<lparr>vx = 1, vy = 8.5, vz = 2\<rparr>
      \<and> scale (objs h' f) = \<lparr>vx = 1, vy = 1, vz = 1\<rparr>
      \<and> position (objs h' l) = \<lparr>vx = 1, vy = 9, vz = 2\<rparr>)"
proof -
  note d = demo_depth(1)
  from createFlame_places_flame_and_light[OF d, of "Some 1" "Some 0" "Some 2" "Some 0.5" "Some 1.5"
      "new_CandleLoader 0" demo_heap]
  have "\<exists>c f l this' h'.
        loadCandle demo_opts (Loaded demo_gltf 10000) (new_CandleLoader 0, demo_heap) =
          Inr (Resolved c, (this', h'))
      \<and> flame this' = Some f \<and> flameLight this' = Some l
      \<and> position (objs h' f) = \<lparr>vx = 1, vy = 8.5, vz = 2\<rparr>
      \<and> scale (objs h' f) = \<lparr>vx = 1, vy = 1, vz = 1\<rparr>
      \<and> position (objs h' l) = \<lparr>vx = 1, vy = 9, vz = 2\<rparr>"
    by (simp add: demo_opts_def Let_def)
  with d show ?thesis by blast
qed

section \<open>A failed load\<close>

text \<open>
  Claim C3. When the loader reports an error, the promise is rejected with that very
  error and the controller and the store are exactly as before: a controller that had
  nothing loaded still has \<open>candle\<close>, \<open>flame\<close> and \<open>flameLight\<close> unset. A
  following load whose success callback runs to its end resolves and sets all three, and
  the outcome of the two calls in sequence is the outcome of the second call alone.
\<close>

theorem loadCandle_failure_leaves_state:
  "loadCandle opts (Failed err) s = Inr (Rejected err, s)
   \<and> (\<exists>this1 h1. loadCandle opts (Failed err) (new_CandleLoader sc, h) = Inr (Rejected err, (this1, h1))
         \<and> candle this1 = None \<and> flame this1 = None \<and> flameLight this1 = None \<and> h1 = h)
   \<and> (gltf_depth g \<le> k \<longrightarrow>
        (\<exists>c s2. loadCandle opts2 (Loaded g k) s = Inr (Resolved c, s2)
           \<and> candle (fst s2) = Some c \<and> flame (fst s2) \<noteq> None \<and> flameLight (fst s2) \<noteq> None))
   \<and> run [LoadCandle opts (Failed err), LoadCandle opts2 (Loaded g k)] s
       = run [LoadCandle opts2 (Loaded g k)] s"
proof -
  have 1: "loadCandle opts (Failed err) s = Inr (Rejected err, s)" for s
    by (rule loadCandle_Failed)
  have 2: "\<exists>this1 h1. loadCandle opts (Failed err) (new_CandleLoader sc, h) = Inr (Rejected err, (this1, h1))
         \<and> candle this1 = None \<and> flame this1 = None \<and> flameLight this1 = None \<and> h1 = h"
    by (simp add: 1 new_CandleLoader_def)
  have 3: "gltf_depth g \<le> k \<longrightarrow>
        (\<exists>c s2. loadCandle opts2 (Loaded g k) s = Inr (Resolved c, s2)
           \<and> candle (fst s2) = Some c \<and> flame (fst s2) \<noteq> None \<and> flameLight (fst s2) \<noteq> None)"
  proof
    assume "gltf_depth g \<le> k"
    from loadCandle_handles[OF this, of opts2 s]
    show "\<exists>c s2. loadCandle opts2 (Loaded g k) s = Inr (Resolved c, s2)
           \<and> candle (fst s2) = Some c \<and> flame (fst s2) \<noteq> None \<and> flameLight (fst s2) \<noteq> None"
      by auto
  qed
  have 4: "run [LoadCandle opts (Failed err), LoadCandle opts2 (Loaded g k)] s
       = run [LoadCandle opts2 (Loaded g k)] s"
    by (simp add: run_def 1)
  from 1 2 3 4 show ?thesis by blast
qed

text \<open>
  A fetch error on a fresh controller, and the load that succeeds after it.
\<close>

theorem loadCandle_failure_leaves_state_witness:
  "loadCandle demo_opts (Failed ''fetch failed'') (new_CandleLoader 0, demo_heap)
     = Inr (Rejected ''fetch failed'', (new_CandleLoader 0, demo_heap))
   \<and> gltf_depth demo_gltf \<le> 10000
   \<and> (\<exists>c s2. loadCandle demo_opts (Loaded demo_gltf 10000) (new_CandleLoader 0, demo_heap)
          = Inr (Resolved c, s2)
         \<and> candle (fst s2) = Some c \<and> flame (fst s2) \<noteq> None \<and> flameLight (fst s2) \<noteq> None)"
  using loadCandle_failure_leaves_state[of demo_opts "''fetch failed''"
      "(new_CandleLoader 0, demo_heap)" 0 demo_heap demo_gltf 10000 demo_opts] demo_depth(1)
  by blast

section \<open>The handles exist together\<close>




section \<open>Animation\<close>







section \<open>Removal\<close>

text \<open>
  Claim C7. From every state \<open>removeCandle\<close> returns without an error, a second call
  right after returns the same state again, so two calls in a row end where one call
  ends, and with nothing loaded the call changes nothing.
\<close>

theorem removeCandle_idempotent:
  "\<exists>s1. removeCandle s = Inr s1 \<and> removeCandle s1 = Inr s1
     \<and> run [RemoveCandle, RemoveCandle] s = run [RemoveCandle] s
     \<and> (candle (fst s) = None \<and> flame (fst s) = None \<and> flameLight (fst s) = None \<longrightarrow> s1 = s)"
proof -
  from removeCandle_handles[of s]
  obtain s1 where r: "removeCandle s = Inr s1"
    and n: "candle (fst s1) = None" "flame (fst s1) = None" "flameLight (fst s1) = None"
    by blast
  have again: "removeCandle s1 = Inr s1"
    using n removeCandle_nothing_loaded[of "fst s1" "snd s1"] by simp
  have twice: "run [RemoveCandle, RemoveCandle] s = run [RemoveCandle] s"
    by (simp add: run_def r again)
  have noop: "candle (fst s) = None \<and> flame (fst s) = None \<and> flameLight (fst s) = None \<longrightarrow> s1 = s"
    using r removeCandle_nothing_loaded[of "fst s" "snd s"] by auto
  from r again twice noop show ?thesis by blast
qed

text \<open>
  On a fresh controller the call is a no-op.
\<close>

theorem removeCandle_idempotent_witness:
  "\<exists>s1. removeCandle (new_CandleLoader 0, demo_heap) = Inr s1 \<and> removeCandle s1 = Inr s1
     \<and> s1 = (new_CandleLoader 0, demo_heap)"
  using removeCandle_idempotent[of "(new_CandleLoader 0, demo_heap)"]
  by (simp add: new_CandleLoader_def)

text \<open>
  Claim C8. In the state \<open>removeCandle\<close> leaves, \<open>animate\<close> and
  \<open>updatePosition\<close> return without an error and change neither the controller nor the
  store, and so does every sequence of such calls.
\<close>

theorem nothing_happens_after_removeCandle:
  "\<exists>s1. removeCandle s = Inr s1
     \<and> animate deltaTime s1 = Inr s1
     \<and> updatePosition x y z s1 = Inr s1
     \<and> (list_all inert es \<longrightarrow> run es s1 = Inr s1)"
proof -
  from removeCandle_handles[of s]
  obtain s1 where r: "removeCandle s = Inr s1"
    and n: "candle (fst s1) = None" "flame (fst s1) = None"
    by blast
  have a: "animate deltaTime s1 = Inr s1"
    using n animate_nothing_loaded[of "fst s1" deltaTime "snd s1"] by simp
  have u: "updatePosition x y z s1 = Inr s1"
    using n updatePosition_nothing_loaded[of "fst s1" x y z "snd s1"] by simp
  have "list_all inert es \<longrightarrow> run es s1 = Inr s1"
    using inert_run[OF n] by blast
  with r a u show ?thesis by blast
qed

text \<open>
  Load, remove, then three such calls.
\<close>

theorem nothing_happens_after_removeCandle_witness:
  "\<exists>s0 s1. run [LoadCandle demo_opts (Loaded demo_gltf 10000)] (new_CandleLoader 0, demo_heap) = Inr s0
     \<and> removeCandle s0 = Inr s1
     \<and> list_all inert [Animate None, UpdatePosition 5 5 5, Animate (Some 1)]
     \<and> run [Animate None, UpdatePosition 5 5 5, Animate (Some 1)] s1 = Inr s1
     \<and> animate None s1 = Inr s1
     \<and> updatePosition 5 5 5 s1 = Inr s1"
proof -
  from demo_loaded obtain s0
    where r: "run [LoadCandle demo_opts (Loaded demo_gltf 10000)] (new_CandleLoader 0, demo_heap)
       = Inr s0" by blast
  have i: "list_all inert [Animate None, UpdatePosition 5 5 5, Animate (Some 1)]" by simp
  from nothing_happens_after_removeCandle[of s0 None 5 5 5
      "[Animate None, UpdatePosition 5 5 5, Animate (Some 1)]"] i
  have "\<exists>s1. removeCandle s0 = Inr s1
     \<and> run [Animate None, UpdatePosition 5 5 5, Animate (Some 1)] s1 = Inr s1
     \<and> animate None s1 = Inr s1
     \<and> updatePosition 5 5 5 s1 = Inr s1"
    by blast
  with r i show ?thesis by blast
qed

text \<open>
  Claim C10. \<open>removeCandle\<close> keeps the accumulated animation time, and so does a
  following load whose success callback runs to its end; the first \<open>animate\<close> after
  them continues from the time reached before the removal: it yields that time plus the
  delta (0.016 when none is given).
\<close>

theorem removeCandle_keeps_flameTime:
  assumes "gltf_depth g \<le> k"
  shows "\<exists>s1 c s2 s3. removeCandle s = Inr s1
     \<and> flameTime (fst s1) = flameTime (fst s)
     \<and> loadCandle opts (Loaded g k) s1 = Inr (Resolved c, s2)
     \<and> flameTime (fst s2) = flameTime (fst s)
     \<and> animate deltaTime s2 = Inr s3
     \<and> flameTime (fst s3) =
         flameTime (fst s) + (case deltaTime of None \<Rightarrow> 0.016 | Some d \<Rightarrow> d)"
proof -
  from removeCandle_handles[of s]
  obtain s1 where r: "removeCandle s = Inr s1" and t1: "flameTime (fst s1) = flameTime (fst s)"
    by blast
  from loadCandle_handles[OF assms, of opts s1]
  obtain c s2 where l: "loadCandle opts (Loaded g k) s1 = Inr (Resolved c, s2)"
    and f2: "flame (fst s2) = Some (c + 1)" "flameLight (fst s2) = Some (c + 4)"
    and t2: "flameTime (fst s2) = flameTime (fst s1)"
    by blast
  from animate_result[of deltaTime "fst s2" "snd s2"] f2
  obtain h3 where a: "animate deltaTime s2 =
      Inr ((fst s2)\<lparr>flameTime := flameTime (fst s2) + defaultDelta deltaTime\<rparr>, h3)"
    by auto
  have "flameTime (fst ((fst s2)\<lparr>flameTime := flameTime (fst s2) + defaultDelta deltaTime\<rparr>, h3))
      = flameTime (fst s) + defaultDelta deltaTime"
    by (simp add: t2 t1)
  with r t1 l t2 a
  have "\<exists>s1 c s2 s3. removeCandle s = Inr s1
     \<and> flameTime (fst s1) = flameTime (fst s)
     \<and> loadCandle opts (Loaded g k) s1 = Inr (Resolved c, s2)
     \<and> flameTime (fst s2) = flameTime (fst s)
     \<and> animate deltaTime s2 = Inr s3
     \<and> flameTime (fst s3) = flameTime (fst s) + defaultDelta deltaTime"
    by (metis)
  then show ?thesis unfolding defaultDelta_def .
qed

text \<open>
  A controller that has reached time 2.5: after removal and reload, a frame of 0.5
  brings it to 3.
\<close>

theorem removeCandle_keeps_flameTime_witness:
  "gltf_depth demo_gltf \<le> 10000 \<and> (\<exists>s1 c s2 s3. removeCandle ((new_CandleLoader 0)\<lparr>flameTime := 2.5\<rparr>, demo_heap) = Inr s1
     \<and> loadCandle demo_opts (Loaded demo_gltf 10000) s1 = Inr (Resolved c, s2)
     \<and> animate (Some 0.5) s2 = Inr s3
     \<and> flameTime (fst s3) = 3)"
proof -
  from removeCandle_keeps_flameTime[OF demo_depth(1),
      of "((new_CandleLoader 0)\<lparr>flameTime := 2.5\<rparr>, demo_heap)" demo_opts "Some 0.5"]
  obtain s1 c s2 s3
    where "removeCandle ((new_CandleLoader 0)\<lparr>flameTime := 2.5\<rparr>, demo_heap) = Inr s1"
      and "loadCandle demo_opts (Loaded demo_gltf 10000) s1 = Inr (Resolved c, s2)"
      and "animate (Some 0.5) s2 = Inr s3"
      and "flameTime (fst s3) =
        flameTime (fst ((new_CandleLoader 0)\<lparr>flameTime := 2.5\<rparr>, demo_heap)) + (case Some 0.5 of None \<Rightarrow> 0.016 | Some d \<Rightarrow> d)"
    by blast
  moreover have "flameTime (fst ((new_CandleLoader 0)\<lparr>flameTime := 2.5\<rparr>, demo_heap))
      + (case Some 0.5 of None \<Rightarrow> 0.016 | Some d \<Rightarrow> d) = 3"
    by (simp add: defaultDelta_def)
  ultimately show ?thesis using demo_depth(1) by metis
qed

end
